theory Spec2Isabelle
  imports Main
begin

section \<open>Promises and producers\<close>

text \<open>
  The samples cache JavaScript promises. A promise is an object with an identity and a
  state that changes once, from pending to fulfilled or rejected. Objects are modelled by
  their address (a natural number) in an explicit store.
\<close>

type_synonym key = string
type_synonym pid = nat

datatype ('v, 'e) pstate = PPending | PFulfilled 'v | PRejected 'e

text \<open>
  What a \<^verbatim>\<open>throw\<close> carries up the component tree: an error (the failure signal) or a
  promise (the not-ready signal).
\<close>

datatype ('a, 'b) thrown = ThrownError 'a | ThrownPromise 'b

text \<open>
  A producer \<^verbatim>\<open>fetcher: () => Promise<T>\<close>. The fetchers of the samples are
  \<^verbatim>\<open>async\<close> functions and \<^verbatim>\<open>fetch(...).then(...)\<close> chains: a call starts an operation and
  returns a new pending promise. The type also admits a function that throws before it
  returns anything.
\<close>

datatype 'e fetcher = Starts | Throws 'e

section \<open>The promise caches: \<^verbatim>\<open>getCachedPromise\<close> and \<^verbatim>\<open>cachedFetch\<close>\<close>

text \<open>
  \<^verbatim>\<open>const cache = new Map<string, Promise<any>>()\<close> together with the promise store.
  \<open>handlers\<close> holds the callbacks registered by \<^verbatim>\<open>promise.catch(() => { cache.delete(key) })\<close>
  as pairs of the promise and the key the callback deletes. \<open>invoked\<close> is a log of the
  producer calls (the key each call was made for); the code does not read it.
\<close>

record ('v, 'e) pcache =
  promises :: "pid \<Rightarrow> ('v, 'e) pstate"
  nextPid :: pid
  cache :: "key \<rightharpoonup> pid"
  handlers :: "(pid \<times> key) list"
  invoked :: "key list"

definition emptyCache :: "('v, 'e) pcache" where
  "emptyCache = \<lparr>promises = (\<lambda>_. PPending), nextPid = 0, cache = Map.empty,
                 handlers = [], invoked = []\<rparr>"

text \<open>The call \<^verbatim>\<open>fetcher()\<close> made for key \<open>k\<close>.\<close>

fun callFetcher :: "'e fetcher \<Rightarrow> key \<Rightarrow> ('v, 'e) pcache \<Rightarrow> ('e + pid) \<times> ('v, 'e) pcache" where
  "callFetcher Starts k w =
     (Inr (nextPid w),
      w\<lparr>promises := (promises w)(nextPid w := PPending), nextPid := Suc (nextPid w),
        invoked := invoked w @ [k]\<rparr>)"
| "callFetcher (Throws e) k w = (Inl e, w\<lparr>invoked := invoked w @ [k]\<rparr>)"

text \<open>
  \<^verbatim>\<open>
  function getCachedPromise<T>(key: string, fetcher: () => Promise<T>): Promise<T> {
    if (!cache.has(key)) {
      cache.set(key, fetcher());
    }
    return cache.get(key)!;
  }
  \<close>
  A throw of \<^verbatim>\<open>fetcher()\<close> leaves the function before \<^verbatim>\<open>cache.set\<close> runs.
\<close>

definition getCachedPromise ::
  "key \<Rightarrow> 'e fetcher \<Rightarrow> ('v, 'e) pcache \<Rightarrow> ('e + pid) \<times> ('v, 'e) pcache" where
  "getCachedPromise k fetcher w =
     (case cache w k of
        Some p \<Rightarrow> (Inr p, w)
      | None \<Rightarrow>
          (case callFetcher fetcher k w of
             (Inl e, w') \<Rightarrow> (Inl e, w')
           | (Inr p, w') \<Rightarrow> (Inr p, w'\<lparr>cache := (cache w')(k \<mapsto> p)\<rparr>)))"

text \<open>
  \<^verbatim>\<open>
  export function cachedFetch<T>(key: string, fetcher: () => Promise<T>): Promise<T> {
    if (cache.has(key)) {
      return cache.get(key)!;
    }
    const promise = fetcher();
    cache.set(key, promise);
    // remove from the cache on failure
    promise.catch(() => {
      cache.delete(key);
    });
    return promise;
  }
  \<close>
\<close>

definition cachedFetch ::
  "key \<Rightarrow> 'e fetcher \<Rightarrow> ('v, 'e) pcache \<Rightarrow> ('e + pid) \<times> ('v, 'e) pcache" where
  "cachedFetch k fetcher w =
     (case cache w k of
        Some p \<Rightarrow> (Inr p, w)
      | None \<Rightarrow>
          (case callFetcher fetcher k w of
             (Inl e, w') \<Rightarrow> (Inl e, w')
           | (Inr p, w') \<Rightarrow>
               (Inr p, w'\<lparr>cache := (cache w')(k \<mapsto> p), handlers := handlers w' @ [(p, k)]\<rparr>)))"

text \<open>\<^verbatim>\<open>cache.delete(key)\<close> and \<^verbatim>\<open>cache.clear()\<close>.\<close>

definition cacheDelete :: "key \<Rightarrow> ('v, 'e) pcache \<Rightarrow> ('v, 'e) pcache" where
  "cacheDelete k w = w\<lparr>cache := (cache w)(k := None)\<rparr>"

definition cacheClear :: "('v, 'e) pcache \<Rightarrow> ('v, 'e) pcache" where
  "cacheClear w = w\<lparr>cache := Map.empty\<rparr>"

text \<open>
  The operation behind promise \<open>p\<close> settles with \<open>out\<close>. A promise settles once; when it
  rejects, the \<^verbatim>\<open>catch\<close> callbacks registered on it run in the order of registration.
\<close>

definition runCatch :: "pid \<Rightarrow> ('v, 'e) pcache \<Rightarrow> ('v, 'e) pcache" where
  "runCatch p w =
     fold (\<lambda>(q, k) w'. if q = p then cacheDelete k w' else w') (handlers w) w"

definition settle :: "pid \<Rightarrow> ('v, 'e) pstate \<Rightarrow> ('v, 'e) pcache \<Rightarrow> ('v, 'e) pcache" where
  "settle p out w =
     (if promises w p = PPending then
        (case out of
           PPending \<Rightarrow> w
         | PFulfilled v \<Rightarrow> w\<lparr>promises := (promises w)(p := out)\<rparr>
         | PRejected e \<Rightarrow> runCatch p (w\<lparr>promises := (promises w)(p := out)\<rparr>))
      else w)"

text \<open>
  The chapter on Suspense gives the reading of a promise as
  \<^verbatim>\<open>
  function use<T>(promise: Promise<T>): T {
    if (promise.status === 'fulfilled') { return promise.value; }
    if (promise.status === 'rejected') { throw promise.reason; }
    throw promise;
  }
  \<close>
  A component of the dashboard reads with \<^verbatim>\<open>use(getCachedPromise(key, fetcher))\<close>.
\<close>

definition use :: "pid \<Rightarrow> ('v, 'e) pcache \<Rightarrow> ('e, pid) thrown + 'v" where
  "use p w =
     (case promises w p of
        PFulfilled v \<Rightarrow> Inr v
      | PRejected e \<Rightarrow> Inl (ThrownError e)
      | PPending \<Rightarrow> Inl (ThrownPromise p))"

definition readCached ::
  "key \<Rightarrow> 'e fetcher \<Rightarrow> ('v, 'e) pcache \<Rightarrow> (('e, pid) thrown + 'v) \<times> ('v, 'e) pcache" where
  "readCached k fetcher w =
     (case getCachedPromise k fetcher w of
        (Inl e, w') \<Rightarrow> (Inl (ThrownError e), w')
      | (Inr p, w') \<Rightarrow> (use p w', w'))"

text \<open>
  What can happen to the dashboard's cache, one event at a time: a call of
  \<^verbatim>\<open>getCachedPromise\<close>, the settlement of a promise, \<^verbatim>\<open>cache.delete(key)\<close> and
  \<^verbatim>\<open>cache.clear()\<close>. \<open>cacheRun\<close> replays a history; \<open>removes k\<close> tells the events that remove
  the entry of \<open>k\<close>.
\<close>

datatype ('v, 'e) cacheEvent =
    GetCached key "'e fetcher"
  | Settles pid "('v, 'e) pstate"
  | Deletes key
  | Clears

fun cacheStep :: "('v, 'e) cacheEvent \<Rightarrow> ('v, 'e) pcache \<Rightarrow> ('v, 'e) pcache" where
  "cacheStep (GetCached k fetcher) w = snd (getCachedPromise k fetcher w)"
| "cacheStep (Settles p out) w = settle p out w"
| "cacheStep (Deletes k) w = cacheDelete k w"
| "cacheStep Clears w = cacheClear w"

definition cacheRun :: "('v, 'e) cacheEvent list \<Rightarrow> ('v, 'e) pcache \<Rightarrow> ('v, 'e) pcache" where
  "cacheRun evs w = fold cacheStep evs w"

fun removes :: "key \<Rightarrow> ('v, 'e) cacheEvent \<Rightarrow> bool" where
  "removes k (Deletes k') = (k' = k)"
| "removes k Clears = True"
| "removes k _ = False"

text \<open>
  Every history of the dashboard's cache keeps it free of \<^verbatim>\<open>catch\<close> callbacks (only
  \<^verbatim>\<open>cachedFetch\<close> registers them) and its entries allocated. \<open>promiseHeld\<close>: the cache holds
  the settled promise \<open>p\<close> under \<open>k\<close>.
\<close>

definition allocated :: "('v, 'e) pcache \<Rightarrow> bool" where
  "allocated w \<longleftrightarrow> handlers w = [] \<and> (\<forall>k p. cache w k = Some p \<longrightarrow> p < nextPid w)"

definition promiseHeld :: "key \<Rightarrow> pid \<Rightarrow> ('v, 'e) pstate \<Rightarrow> ('v, 'e) pcache \<Rightarrow> bool" where
  "promiseHeld k p st w \<longleftrightarrow>
     cache w k = Some p \<and> promises w p = st \<and> st \<noteq> PPending \<and> p < nextPid w
     \<and> handlers w = []"

section \<open>The Suspense utility: \<^verbatim>\<open>wrapPromise\<close>\<close>

text \<open>
  \<^verbatim>\<open>
  type SuspenseCache<T> = {
    status: 'pending' | 'fulfilled' | 'rejected';
    value?: T;
    error?: Error;
    promise?: Promise<T>;
  };
  const cache = new Map<string, SuspenseCache<any>>();
  \<close>
  An optional field that is not set reads as \<^verbatim>\<open>undefined\<close>: \<open>None\<close>.
\<close>

type_synonym rid = nat

datatype status = Pending | Fulfilled | Rejected

record ('v, 'e) SuspenseCache =
  status_sc :: status
  value_sc :: "'v option"
  error_sc :: "'e option"
  promise_sc :: "pid option"

text \<open>
  The state of the module: the promises handed to \<^verbatim>\<open>wrapPromise\<close>, the resource objects it
  has created (by address), the \<^verbatim>\<open>cache\<close> map, and the callbacks registered with
  \<^verbatim>\<open>promise.then(onFulfilled, onRejected)\<close> that have not run yet, each with the
  \<^verbatim>\<open>resource\<close> and \<^verbatim>\<open>cacheKey\<close> it closes over.
\<close>

record ('v, 'e) suspense =
  promiseState :: "pid \<Rightarrow> ('v, 'e) pstate"
  resources :: "rid \<Rightarrow> ('v, 'e) SuspenseCache"
  nextRid :: rid
  suspenseCache :: "key \<rightharpoonup> rid"
  reactions :: "(pid \<times> rid \<times> key option) list"

definition emptySuspense :: "('v, 'e) suspense" where
  "emptySuspense =
     \<lparr>promiseState = (\<lambda>_. PPending),
      resources = (\<lambda>_. \<lparr>status_sc = Pending, value_sc = None, error_sc = None,
                          promise_sc = None\<rparr>),
      nextRid = 0, suspenseCache = Map.empty, reactions = []\<rparr>"

text \<open>
  \<^verbatim>\<open>cacheKey?: string\<close> is tested by truthiness (\<^verbatim>\<open>if (cacheKey && ...)\<close>,
  \<^verbatim>\<open>if (cacheKey) ...\<close>): \<^verbatim>\<open>undefined\<close> and the empty string both count as no key.
\<close>

fun truthyKey :: "key option \<Rightarrow> key option" where
  "truthyKey None = None"
| "truthyKey (Some k) = (if k = [] then None else Some k)"

text \<open>
  The two closures \<^verbatim>\<open>wrapPromise\<close> returns: \<^verbatim>\<open>() => cached.value!\<close> on a cache hit, and
  the status test over the new \<^verbatim>\<open>resource\<close> otherwise.
\<close>

datatype reader = ValueReader rid | StatusReader rid

text \<open>
  \<^verbatim>\<open>
  export function wrapPromise<T>(promise: Promise<T>, cacheKey?: string): () => T {
    if (cacheKey && cache.has(cacheKey)) {
      const cached = cache.get(cacheKey)!;
      if (cached.status === 'fulfilled') return () => cached.value!;
      if (cached.status === 'rejected') throw cached.error;
      throw cached.promise; // still pending
    }
    const resource: SuspenseCache<T> = { status: 'pending', promise };
    promise.then(
      (value) => { resource.status = 'fulfilled'; resource.value = value;
                   if (cacheKey) cache.set(cacheKey, resource); },
      (error) => { resource.status = 'rejected'; resource.error = error;
                   if (cacheKey) cache.set(cacheKey, resource); }
    );
    return () => { ... };
  }
  \<close>
\<close>

definition wrapPromise ::
  "pid \<Rightarrow> key option \<Rightarrow> ('v, 'e) suspense
     \<Rightarrow> (('e option, pid option) thrown + reader) \<times> ('v, 'e) suspense" where
  "wrapPromise promise cacheKey s =
     (case (case truthyKey cacheKey of None \<Rightarrow> None | Some k \<Rightarrow> suspenseCache s k) of
        Some r \<Rightarrow>
          (let cached = resources s r in
             if status_sc cached = Fulfilled then (Inr (ValueReader r), s)
             else if status_sc cached = Rejected then (Inl (ThrownError (error_sc cached)), s)
             else (Inl (ThrownPromise (promise_sc cached)), s))
      | None \<Rightarrow>
          (let r = nextRid s in
             (Inr (StatusReader r),
              s\<lparr>resources := (resources s)
                    (r := \<lparr>status_sc = Pending, value_sc = None, error_sc = None,
                           promise_sc = Some promise\<rparr>),
                nextRid := Suc r,
                reactions := reactions s @ [(promise, r, cacheKey)]\<rparr>)))"

text \<open>
  Calling a returned closure.
  \<^verbatim>\<open>
  return () => {
    if (resource.status === 'fulfilled') { return resource.value!; }
    if (resource.status === 'rejected') { throw resource.error; }
    throw resource.promise; // Suspend!
  };
  \<close>
\<close>

fun callReader ::
  "reader \<Rightarrow> ('v, 'e) suspense \<Rightarrow> ('e option, pid option) thrown + 'v option" where
  "callReader (ValueReader r) s = Inr (value_sc (resources s r))"
| "callReader (StatusReader r) s =
     (let resource = resources s r in
        if status_sc resource = Fulfilled then Inr (value_sc resource)
        else if status_sc resource = Rejected then Inl (ThrownError (error_sc resource))
        else Inl (ThrownPromise (promise_sc resource)))"

text \<open>A component's read: \<^verbatim>\<open>wrapPromise(promise, cacheKey)()\<close>.\<close>

definition readWrapped ::
  "pid \<Rightarrow> key option \<Rightarrow> ('v, 'e) suspense
     \<Rightarrow> (('e option, pid option) thrown + 'v option) \<times> ('v, 'e) suspense" where
  "readWrapped promise cacheKey s =
     (case wrapPromise promise cacheKey s of
        (Inl t, s') \<Rightarrow> (Inl t, s')
      | (Inr rd, s') \<Rightarrow> (callReader rd s', s'))"

text \<open>The two callbacks given to \<^verbatim>\<open>promise.then\<close>, for the resource at \<open>r\<close>.\<close>

definition onFulfilled ::
  "rid \<Rightarrow> key option \<Rightarrow> 'v \<Rightarrow> ('v, 'e) suspense \<Rightarrow> ('v, 'e) suspense" where
  "onFulfilled r cacheKey v s =
     (let s1 = s\<lparr>resources := (resources s)
                  (r := (resources s r)\<lparr>status_sc := Fulfilled, value_sc := Some v\<rparr>)\<rparr>
      in case truthyKey cacheKey of
           None \<Rightarrow> s1
         | Some k \<Rightarrow> s1\<lparr>suspenseCache := (suspenseCache s1)(k \<mapsto> r)\<rparr>)"

definition onRejected ::
  "rid \<Rightarrow> key option \<Rightarrow> 'e \<Rightarrow> ('v, 'e) suspense \<Rightarrow> ('v, 'e) suspense" where
  "onRejected r cacheKey e s =
     (let s1 = s\<lparr>resources := (resources s)
                  (r := (resources s r)\<lparr>status_sc := Rejected, error_sc := Some e\<rparr>)\<rparr>
      in case truthyKey cacheKey of
           None \<Rightarrow> s1
         | Some k \<Rightarrow> s1\<lparr>suspenseCache := (suspenseCache s1)(k \<mapsto> r)\<rparr>)"

text \<open>
  A registered pair of callbacks runs once its promise has settled: the first callback
  when the promise is fulfilled, the second when it is rejected.
\<close>

fun runReaction ::
  "pid \<times> rid \<times> key option \<Rightarrow> ('v, 'e) suspense \<Rightarrow> ('v, 'e) suspense" where
  "runReaction (p, r, cacheKey) s =
     (case promiseState s p of
        PPending \<Rightarrow> s
      | PFulfilled v \<Rightarrow> onFulfilled r cacheKey v s
      | PRejected e \<Rightarrow> onRejected r cacheKey e s)"

definition runReactions :: "('v, 'e) suspense \<Rightarrow> ('v, 'e) suspense" where
  "runReactions s =
     fold runReaction
       (filter (\<lambda>(p, r, ck). promiseState s p \<noteq> PPending) (reactions s))
       (s\<lparr>reactions := filter (\<lambda>(p, r, ck). promiseState s p = PPending) (reactions s)\<rparr>)"

text \<open>
  The operation behind \<open>p\<close> settles with \<open>out\<close>: a pending promise takes the outcome and
  the callbacks waiting for it run, in the order they were registered. A promise that has
  settled keeps its state.
\<close>

definition settlePromise ::
  "pid \<Rightarrow> ('v, 'e) pstate \<Rightarrow> ('v, 'e) suspense \<Rightarrow> ('v, 'e) suspense" where
  "settlePromise p out s =
     (if promiseState s p = PPending \<and> out \<noteq> PPending
      then runReactions (s\<lparr>promiseState := (promiseState s)(p := out)\<rparr>)
      else s)"

text \<open>
  \<^verbatim>\<open>export function invalidateCache(key: string) { cache.delete(key); }\<close> and
  \<^verbatim>\<open>export function invalidateAllCache() { cache.clear(); }\<close>
\<close>

definition invalidateCache :: "key \<Rightarrow> ('v, 'e) suspense \<Rightarrow> ('v, 'e) suspense" where
  "invalidateCache k s = s\<lparr>suspenseCache := (suspenseCache s)(k := None)\<rparr>"

definition invalidateAllCache :: "('v, 'e) suspense \<Rightarrow> ('v, 'e) suspense" where
  "invalidateAllCache s = s\<lparr>suspenseCache := Map.empty\<rparr>"

text \<open>
  What can happen to the module, one event at a time: a call of \<^verbatim>\<open>wrapPromise\<close>, the
  settlement of a promise, a turn of the job queue (for callbacks registered on a promise
  that had settled already), and the two invalidations. \<open>run\<close> replays a history.
\<close>

datatype ('v, 'e) event =
    Wrap pid "key option"
  | Settle pid "('v, 'e) pstate"
  | Microtasks
  | Invalidate key
  | InvalidateAll

fun step :: "('v, 'e) event \<Rightarrow> ('v, 'e) suspense \<Rightarrow> ('v, 'e) suspense" where
  "step (Wrap p cacheKey) s = snd (wrapPromise p cacheKey s)"
| "step (Settle p out) s = settlePromise p out s"
| "step Microtasks s = runReactions s"
| "step (Invalidate k) s = invalidateCache k s"
| "step InvalidateAll s = invalidateAllCache s"

definition run :: "('v, 'e) event list \<Rightarrow> ('v, 'e) suspense \<Rightarrow> ('v, 'e) suspense" where
  "run evs s = fold step evs s"

text \<open>
  What every history keeps true: a resource in the cache has been allocated, is stored
  under a non-empty key and has left the pending status; a waiting callback belongs to an
  allocated resource.
\<close>

definition cacheSettled :: "('v, 'e) suspense \<Rightarrow> bool" where
  "cacheSettled s \<longleftrightarrow>
     (\<forall>k r. suspenseCache s k = Some r \<longrightarrow>
        r < nextRid s \<and> k \<noteq> [] \<and> status_sc (resources s r) \<noteq> Pending)
     \<and> (\<forall>x \<in> set (reactions s). fst (snd x) < nextRid s)"

text \<open>
  Two more facts every history keeps true. Each waiting callback has a resource of its
  own, which is allocated, still pending and holds the callback's promise. A resource that
  has left the pending status holds what its own promise settled with.
\<close>

definition linked :: "('v, 'e) suspense \<Rightarrow> bool" where
  "linked s \<longleftrightarrow>
     distinct (map (\<lambda>x. fst (snd x)) (reactions s))
     \<and> (\<forall>x \<in> set (reactions s).
          fst (snd x) < nextRid s
          \<and> status_sc (resources s (fst (snd x))) = Pending
          \<and> promise_sc (resources s (fst (snd x))) = Some (fst x))
     \<and> (\<forall>r. status_sc (resources s r) = Fulfilled \<longrightarrow>
            (\<exists>p v. promise_sc (resources s r) = Some p
               \<and> promiseState s p = PFulfilled v \<and> value_sc (resources s r) = Some v))
     \<and> (\<forall>r. status_sc (resources s r) = Rejected \<longrightarrow>
            (\<exists>p e. promise_sc (resources s r) = Some p
               \<and> promiseState s p = PRejected e \<and> error_sc (resources s r) = Some e))"

text \<open>
  The events that remove the entry of key \<open>k\<close> from the cache.
\<close>

fun invalidates :: "key \<Rightarrow> ('v, 'e) event \<Rightarrow> bool" where
  "invalidates k (Invalidate k') = (k' = k)"
| "invalidates k InvalidateAll = True"
| "invalidates k _ = False"

text \<open>
  The cache holds resource \<open>r\<close>, with the settled contents \<open>R\<close>, under \<open>k\<close>, and no waiting
  callback writes \<open>r\<close> or stores under \<open>k\<close>.
\<close>

definition entryHeld ::
  "key \<Rightarrow> rid \<Rightarrow> ('v, 'e) SuspenseCache \<Rightarrow> ('v, 'e) suspense \<Rightarrow> bool" where
  "entryHeld k r R s \<longleftrightarrow>
     k \<noteq> [] \<and> suspenseCache s k = Some r \<and> resources s r = R \<and> status_sc R \<noteq> Pending
     \<and> r < nextRid s
     \<and> (\<forall>x \<in> set (reactions s). fst (snd x) \<noteq> r \<and> truthyKey (snd (snd x)) \<noteq> Some k)"

section \<open>The Recovery Boundary: \<^verbatim>\<open>ErrorBoundary\<close>\<close>

text \<open>
  \<^verbatim>\<open>
  interface ErrorBoundaryProps {
    children: ReactNode;
    fallback?: (error: Error, reset: () => void) => ReactNode;
    onReset?: () => void;
  }
  interface ErrorBoundaryState { hasError: boolean; error: Error | null; }
  \<close>
  Of the props, the model keeps whether \<^verbatim>\<open>fallback\<close> is given, and which section the
  \<^verbatim>\<open>onReset\<close> callback resets: the dashboard passes \<^verbatim>\<open>() => handleSectionReset(section)\<close>.
\<close>

record 'e ErrorBoundaryState =
  hasError :: bool
  error :: "'e option"

record ErrorBoundaryProps =
  fallback :: bool
  onReset :: "key option"

datatype 'e view = Children | Fallback 'e | DefaultFallback 'e

text \<open>\<^verbatim>\<open>this.state = { hasError: false, error: null }\<close>\<close>

definition initialState :: "'e ErrorBoundaryState" where
  "initialState = \<lparr>hasError = False, error = None\<rparr>"

text \<open>
  \<^verbatim>\<open>static getDerivedStateFromError(error) { return { hasError: true, error }; }\<close>
  The argument is whatever was thrown; \<open>None\<close> stands for a thrown \<^verbatim>\<open>null\<close> or
  \<^verbatim>\<open>undefined\<close>.
\<close>

definition getDerivedStateFromError :: "'e option \<Rightarrow> 'e ErrorBoundaryState" where
  "getDerivedStateFromError err = \<lparr>hasError = True, error = err\<rparr>"

text \<open>
  \<^verbatim>\<open>
  render() {
    if (this.state.hasError && this.state.error) {
      if (this.props.fallback) { return this.props.fallback(this.state.error, this.reset); }
      return ( <div className="error-fallback"> ... </div> );
    }
    return this.props.children;
  }
  \<close>
\<close>

definition render :: "ErrorBoundaryProps \<Rightarrow> 'e ErrorBoundaryState \<Rightarrow> 'e view" where
  "render props st =
     (case (hasError st, error st) of
        (True, Some e) \<Rightarrow> (if fallback props then Fallback e else DefaultFallback e)
      | _ \<Rightarrow> Children)"

text \<open>
  \<^verbatim>\<open>ErrorBoundaryClass.render\<close> of the \<^verbatim>\<open>use()\<close> sample always shows \<^verbatim>\<open>ErrorFallback\<close>:
  \<^verbatim>\<open>
  render() {
    if (this.state.hasError && this.state.error) {
      return ( <ErrorFallback error={this.state.error} reset={...} /> );
    }
    return this.props.children;
  }
  \<close>
\<close>

definition renderClass :: "'e ErrorBoundaryState \<Rightarrow> 'e view" where
  "renderClass st =
     (case (hasError st, error st) of
        (True, Some e) \<Rightarrow> Fallback e
      | _ \<Rightarrow> Children)"

section \<open>Which boundary takes a thrown value\<close>

text \<open>
  What a subtree shows once it has rendered: its content, the placeholder of a
  \<^verbatim>\<open>Suspense\<close>, or the fallback of an error boundary. A render that throws gives the thrown
  value instead.
\<close>

datatype 'v shown = Rendered 'v | SuspenseFallback | ErrorFallback

text \<open>
  The chapter on Suspense states what \<^verbatim>\<open>Suspense\<close> does with a throw of its children:
  \<^verbatim>\<open>
  function Suspense({ children, fallback }) {
    try {
      return children;
    } catch (promise) {
      if (promise instanceof Promise) {
        promise.then(() => { forceUpdate(); });
        return fallback;
      }
      throw promise; // not a Promise: handled as an error
    }
  }
  \<close>
\<close>

definition Suspense :: "('e, pid) thrown + 'v shown \<Rightarrow> ('e, pid) thrown + 'v shown" where
  "Suspense children =
     (case children of
        Inr v \<Rightarrow> Inr v
      | Inl (ThrownPromise p) \<Rightarrow> Inr SuspenseFallback
      | Inl (ThrownError e) \<Rightarrow> Inl (ThrownError e))"

text \<open>
  \<^verbatim>\<open>TaskContent\<close> of \<^verbatim>\<open>TaskWithFallback.tsx\<close> recovers from a failed read by hand:
  \<^verbatim>\<open>
  let task: Task;
  try {
    task = use(fetchTask(taskId));
  } catch (error) {
    if (error instanceof Promise) {
      throw error; // passed on to Suspense
    }
    task = fallbackTask;
  }
  \<close>
  The argument \<open>r\<close> is what \<^verbatim>\<open>use(fetchTask(taskId))\<close> gave.
\<close>

definition TaskContent :: "('e, pid) thrown + 'v \<Rightarrow> 'v \<Rightarrow> ('e, pid) thrown + 'v" where
  "TaskContent r fallbackTask =
     (case r of
        Inr task \<Rightarrow> Inr task
      | Inl (ThrownPromise p) \<Rightarrow> Inl (ThrownPromise p)
      | Inl (ThrownError e) \<Rightarrow> Inr fallbackTask)"

text \<open>
  Modelled from the spec: the part of the React runtime that hands a thrown value to an
  \<^verbatim>\<open>ErrorBoundary\<close> is not in the repository. Section 4.4 of the specification (as React's
  documentation of error boundaries does) gives the contract: the boundary intercepts a
  failure signal, and only a failure signal; it then takes the state
  \<^verbatim>\<open>getDerivedStateFromError(error)\<close> and renders its fallback. A thrown promise passes
  through. \<open>st\<close> is the boundary's state, \<open>children\<close> what rendering its children gave.
\<close>

definition catchBoundary ::
  "'e ErrorBoundaryState \<Rightarrow> ('e, pid) thrown + 'v shown
     \<Rightarrow> (('e, pid) thrown + 'v shown) \<times> 'e ErrorBoundaryState" where
  "catchBoundary st children =
     (case children of
        Inr v \<Rightarrow> (Inr v, st)
      | Inl (ThrownPromise p) \<Rightarrow> (Inl (ThrownPromise p), st)
      | Inl (ThrownError e) \<Rightarrow> (Inr ErrorFallback, getDerivedStateFromError (Some e)))"

text \<open>
  The boundaries above a component, the nearest first, and the way of a render result
  through them. \<open>states\<close> holds the state of each error boundary.
\<close>

datatype boundaryKind = SuspenseBoundary | RecoveryBoundary nat

fun throughBoundary ::
  "boundaryKind \<Rightarrow> (('e, pid) thrown + 'v shown) \<times> (nat \<Rightarrow> 'e ErrorBoundaryState)
     \<Rightarrow> (('e, pid) thrown + 'v shown) \<times> (nat \<Rightarrow> 'e ErrorBoundaryState)" where
  "throughBoundary SuspenseBoundary (r, states) = (Suspense r, states)"
| "throughBoundary (RecoveryBoundary b) (r, states) =
     (case catchBoundary (states b) r of (r', st') \<Rightarrow> (r', states(b := st')))"

definition propagate ::
  "boundaryKind list \<Rightarrow> ('e, pid) thrown + 'v shown \<Rightarrow> (nat \<Rightarrow> 'e ErrorBoundaryState)
     \<Rightarrow> (('e, pid) thrown + 'v shown) \<times> (nat \<Rightarrow> 'e ErrorBoundaryState)" where
  "propagate path r states = fold throughBoundary path (r, states)"

section \<open>The dashboard: \<^verbatim>\<open>App\<close>\<close>

text \<open>
  The state of the dashboard: the module's promise cache, the \<^verbatim>\<open>resetKey\<close> counter of
  \<^verbatim>\<open>App\<close>, the key the \<^verbatim>\<open><main key={resetKey}>\<close> element was last rendered with, and
  \<^verbatim>\<open>this.state\<close> of each \<^verbatim>\<open>ErrorBoundary\<close> instance below that element.
\<close>

record ('v, 'e) app =
  store :: "('v, 'e) pcache"
  resetKey :: nat
  mountedKey :: nat
  boundaries :: "nat \<Rightarrow> 'e ErrorBoundaryState"

text \<open>
  \<^verbatim>\<open>
  const handleGlobalReset = () => { cache.clear(); setResetKey(k => k + 1); };
  const handleSectionReset = (section: string) => {
    cache.delete(section);
    setResetKey(k => k + 1);
  };
  \<close>
  \<^verbatim>\<open>resetKey\<close> is the key of the dashboard element; the render that follows a change of it
  mounts the element anew (\<open>remountOnKey\<close> below).
\<close>

definition handleGlobalReset :: "('v, 'e) app \<Rightarrow> ('v, 'e) app" where
  "handleGlobalReset a = a\<lparr>store := cacheClear (store a), resetKey := resetKey a + 1\<rparr>"

definition handleSectionReset :: "key \<Rightarrow> ('v, 'e) app \<Rightarrow> ('v, 'e) app" where
  "handleSectionReset section a =
     a\<lparr>store := cacheDelete section (store a), resetKey := resetKey a + 1\<rparr>"

text \<open>
  Boundary \<open>b\<close> captures a thrown value: its state becomes what
  \<^verbatim>\<open>getDerivedStateFromError\<close> returns.
\<close>

definition capture :: "nat \<Rightarrow> 'e option \<Rightarrow> ('v, 'e) app \<Rightarrow> ('v, 'e) app" where
  "capture b err a = a\<lparr>boundaries := (boundaries a)(b := getDerivedStateFromError err)\<rparr>"

text \<open>
  \<^verbatim>\<open>
  reset = () => {
    this.setState({ hasError: false, error: null });
    this.props.onReset?.();
  };
  \<close>
\<close>

definition reset :: "(nat \<Rightarrow> ErrorBoundaryProps) \<Rightarrow> nat \<Rightarrow> ('v, 'e) app \<Rightarrow> ('v, 'e) app" where
  "reset props b a =
     (let a1 = a\<lparr>boundaries := (boundaries a)(b := \<lparr>hasError = False, error = None\<rparr>)\<rparr>
      in case onReset (props b) of
           None \<Rightarrow> a1
         | Some section \<Rightarrow> handleSectionReset section a1)"

text \<open>
  The three boundaries of the dashboard, in the order of the sections: statistics (no
  \<^verbatim>\<open>fallback\<close> prop), tasks and activities.
\<close>

definition dashboardProps :: "nat \<Rightarrow> ErrorBoundaryProps" where
  "dashboardProps b =
     (if b = 0 then \<lparr>fallback = False, onReset = Some ''stats''\<rparr>
      else if b = 1 then \<lparr>fallback = True, onReset = Some ''tasks''\<rparr>
      else \<lparr>fallback = True, onReset = Some ''activities''\<rparr>)"

definition initialApp :: "('v, 'e) app" where
  "initialApp =
     \<lparr>store = emptyCache, resetKey = 0, mountedKey = 0, boundaries = (\<lambda>_. initialState)\<rparr>"

text \<open>A section's component reads with \<^verbatim>\<open>use(getCachedPromise(key, fetcher))\<close>.\<close>

definition readSection ::
  "key \<Rightarrow> 'e fetcher \<Rightarrow> ('v, 'e) app \<Rightarrow> (('e, pid) thrown + 'v) \<times> ('v, 'e) app" where
  "readSection k fetcher a =
     (case readCached k fetcher (store a) of (x, w') \<Rightarrow> (x, a\<lparr>store := w'\<rparr>))"

text \<open>
  \<^verbatim>\<open>App\<close> renders \<^verbatim>\<open><main className="dashboard" key={resetKey}>\<close> around the three
  sections. React's part, from its documentation: when an element is rendered with a key
  other than the one it was mounted with, the subtree below it is discarded and mounted
  anew, so every \<^verbatim>\<open>ErrorBoundary\<close> is constructed again.
\<close>

definition remountOnKey :: "('v, 'e) app \<Rightarrow> ('v, 'e) app" where
  "remountOnKey a =
     (if resetKey a = mountedKey a then a
      else a\<lparr>mountedKey := resetKey a, boundaries := (\<lambda>_. initialState)\<rparr>)"

text \<open>
  One section of the dashboard:
  \<^verbatim>\<open>
  <ErrorBoundary onReset={() => handleSectionReset('stats')}>
    <Suspense fallback={<StatsSkeleton />}>
      <QuickStats />
    </Suspense>
  </ErrorBoundary>
  \<close>
  When the boundary's \<^verbatim>\<open>render\<close> returns its children, the component reads its key, and
  what the read gives goes through the \<^verbatim>\<open>Suspense\<close> and then the boundary. \<open>reads b\<close> is
  the key and the producer of the component below boundary \<open>b\<close>.
\<close>

definition renderSection ::
  "(nat \<Rightarrow> ErrorBoundaryProps) \<Rightarrow> (nat \<Rightarrow> key \<times> 'e fetcher) \<Rightarrow> nat
     \<Rightarrow> ('v, 'e) app \<Rightarrow> ('v, 'e) app" where
  "renderSection props reads b a =
     (if render (props b) (boundaries a b) = Children then
        (case readSection (fst (reads b)) (snd (reads b)) a of
           (x, a') \<Rightarrow>
             a'\<lparr>boundaries :=
                  snd (propagate [SuspenseBoundary, RecoveryBoundary b]
                         (case x of Inl t \<Rightarrow> Inl t | Inr v \<Rightarrow> Inr (Rendered v))
                         (boundaries a'))\<rparr>)
      else a)"

text \<open>
  A render of \<^verbatim>\<open>App\<close>: the dashboard is mounted anew if its key has changed, then the
  sections \<open>bs\<close> render in their order.
\<close>

definition renderApp ::
  "(nat \<Rightarrow> ErrorBoundaryProps) \<Rightarrow> (nat \<Rightarrow> key \<times> 'e fetcher) \<Rightarrow> nat list
     \<Rightarrow> ('v, 'e) app \<Rightarrow> ('v, 'e) app" where
  "renderApp props reads bs a = fold (renderSection props reads) bs (remountOnKey a)"

text \<open>
  The reads of the three sections: \<^verbatim>\<open>use(getCachedPromise('stats', api.fetchStats))\<close>,
  and the same for \<^verbatim>\<open>'tasks'\<close> and \<^verbatim>\<open>'activities'\<close>. The three producers are \<^verbatim>\<open>async\<close>
  functions.
\<close>

definition dashboardReads :: "nat \<Rightarrow> key \<times> 'e fetcher" where
  "dashboardReads b =
     (if b = 0 then (''stats'', Starts)
      else if b = 1 then (''tasks'', Starts)
      else (''activities'', Starts))"

definition renderDashboard :: "('v, 'e) app \<Rightarrow> ('v, 'e) app" where
  "renderDashboard a = renderApp dashboardProps dashboardReads [0, 1, 2] a"

text \<open>
  What happens to the dashboard, each event followed by the render React runs for it:
  an operation settles (the suspended section is tried again), the retry button of a
  section's fallback calls the boundary's \<^verbatim>\<open>reset\<close>, and the refresh button calls
  \<^verbatim>\<open>handleGlobalReset\<close>. \<open>dashRun\<close> replays a history, starting with the first render.
\<close>

datatype ('v, 'e) dashEvent =
    OperationSettles pid "('v, 'e) pstate"
  | Retry nat
  | Refresh

fun dashStep :: "('v, 'e) dashEvent \<Rightarrow> ('v, 'e) app \<Rightarrow> ('v, 'e) app" where
  "dashStep (OperationSettles p out) a = renderDashboard (a\<lparr>store := settle p out (store a)\<rparr>)"
| "dashStep (Retry b) a = renderDashboard (reset dashboardProps b a)"
| "dashStep Refresh a = renderDashboard (handleGlobalReset a)"

definition dashRun :: "('v, 'e) dashEvent list \<Rightarrow> ('v, 'e) app" where
  "dashRun evs = fold dashStep evs (renderDashboard initialApp)"

text \<open>
  \<open>showsEntry\<close>: the section of boundary \<open>b\<close> has an allocated entry, and the boundary shows
  what the entry gives: the failure when the promise is rejected, its children otherwise.
  \<open>rendersFrom\<close>: the weaker state a render starts from: the boundary is as constructed, or
  it holds the rejection of its entry. \<open>outside K w w'\<close>: the cache \<open>w'\<close> is \<open>w\<close> but for key
  \<open>K\<close>: the entries of the other keys, the promises that existed in \<open>w\<close>, and the producer
  calls made for the other keys are the same.
\<close>

definition showsEntry :: "(nat \<Rightarrow> key \<times> 'e fetcher) \<Rightarrow> ('v, 'e) app \<Rightarrow> nat \<Rightarrow> bool" where
  "showsEntry reads a b \<longleftrightarrow>
     (case cache (store a) (fst (reads b)) of
        None \<Rightarrow> False
      | Some p \<Rightarrow>
          p < nextPid (store a)
          \<and> boundaries a b =
              (case promises (store a) p of
                 PRejected e \<Rightarrow> \<lparr>hasError = True, error = Some e\<rparr>
               | _ \<Rightarrow> initialState))"

definition rendersFrom :: "(nat \<Rightarrow> key \<times> 'e fetcher) \<Rightarrow> ('v, 'e) app \<Rightarrow> nat \<Rightarrow> bool" where
  "rendersFrom reads a b \<longleftrightarrow>
     (case cache (store a) (fst (reads b)) of
        None \<Rightarrow> boundaries a b = initialState
      | Some p \<Rightarrow>
          p < nextPid (store a)
          \<and> (boundaries a b = initialState
               \<or> (case promises (store a) p of
                     PRejected e \<Rightarrow> boundaries a b = \<lparr>hasError = True, error = Some e\<rparr>
                   | _ \<Rightarrow> False)))"

definition outside :: "key \<Rightarrow> ('v, 'e) pcache \<Rightarrow> ('v, 'e) pcache \<Rightarrow> bool" where
  "outside K w w' \<longleftrightarrow>
     (\<forall>k. k \<noteq> K \<longrightarrow> cache w' k = cache w k)
     \<and> (\<forall>p < nextPid w. promises w' p = promises w p)
     \<and> nextPid w \<le> nextPid w'
     \<and> filter (\<lambda>k. k \<noteq> K) (invoked w') = filter (\<lambda>k. k \<noteq> K) (invoked w)"

definition dashOk :: "('v, 'e) app \<Rightarrow> bool" where
  "dashOk a \<longleftrightarrow>
     handlers (store a) = [] \<and> mountedKey a = resetKey a
     \<and> showsEntry dashboardReads a 0 \<and> showsEntry dashboardReads a 1
     \<and> showsEntry dashboardReads a 2"

section \<open>What every history of the Suspense utility keeps true\<close>

lemma cacheSettled_empty: "cacheSettled emptySuspense"
  by (simp add: cacheSettled_def emptySuspense_def)

lemma truthyKey_Some: "truthyKey ck = Some k \<longleftrightarrow> ck = Some k \<and> k \<noteq> []"
  by (cases ck) auto

lemma cacheSettled_wrapPromise:
  "cacheSettled s \<Longrightarrow> cacheSettled (snd (wrapPromise p ck s))"
  by (auto simp: cacheSettled_def wrapPromise_def Let_def less_Suc_eq
           split: option.splits)

lemma onFulfilled_fields [simp]:
  "nextRid (onFulfilled r ck v s) = nextRid s"
  "reactions (onFulfilled r ck v s) = reactions s"
  "promiseState (onFulfilled r ck v s) = promiseState s"
  by (simp_all add: onFulfilled_def Let_def split: option.splits)

lemma onRejected_fields [simp]:
  "nextRid (onRejected r ck e s) = nextRid s"
  "reactions (onRejected r ck e s) = reactions s"
  "promiseState (onRejected r ck e s) = promiseState s"
  by (simp_all add: onRejected_def Let_def split: option.splits)

lemma cacheSettled_onFulfilled:
  "cacheSettled s \<Longrightarrow> r < nextRid s \<Longrightarrow> cacheSettled (onFulfilled r ck v s)"
  by (auto simp: cacheSettled_def onFulfilled_def Let_def truthyKey_Some
           split: option.splits if_splits)

lemma cacheSettled_onRejected:
  "cacheSettled s \<Longrightarrow> r < nextRid s \<Longrightarrow> cacheSettled (onRejected r ck e s)"
  by (auto simp: cacheSettled_def onRejected_def Let_def truthyKey_Some
           split: option.splits if_splits)

lemma runReaction_fields [simp]:
  "nextRid (runReaction x s) = nextRid s"
  "reactions (runReaction x s) = reactions s"
  "promiseState (runReaction x s) = promiseState s"
  by (cases x; simp split: pstate.splits)+

lemma cacheSettled_runReaction:
  "cacheSettled s \<Longrightarrow> fst (snd x) < nextRid s \<Longrightarrow> cacheSettled (runReaction x s)"
  by (cases x) (auto split: pstate.splits intro: cacheSettled_onFulfilled cacheSettled_onRejected)

lemma fold_runReaction_fields [simp]:
  "nextRid (fold runReaction xs s) = nextRid s"
  "reactions (fold runReaction xs s) = reactions s"
  "promiseState (fold runReaction xs s) = promiseState s"
  by (induction xs arbitrary: s) simp_all

lemma cacheSettled_fold_runReaction:
  "cacheSettled s \<Longrightarrow> \<forall>x \<in> set xs. fst (snd x) < nextRid s
     \<Longrightarrow> cacheSettled (fold runReaction xs s)"
  by (induction xs arbitrary: s) (simp_all add: cacheSettled_runReaction)

lemma cacheSettled_runReactions: "cacheSettled s \<Longrightarrow> cacheSettled (runReactions s)"
  unfolding runReactions_def
  by (rule cacheSettled_fold_runReaction) (auto simp: cacheSettled_def)

lemma cacheSettled_settlePromise: "cacheSettled s \<Longrightarrow> cacheSettled (settlePromise p out s)"
proof -
  assume a: "cacheSettled s"
  have "cacheSettled (s\<lparr>promiseState := (promiseState s)(p := out)\<rparr>)"
    using a by (simp add: cacheSettled_def)
  then show ?thesis
    using a by (simp add: settlePromise_def cacheSettled_runReactions)
qed

lemma cacheSettled_invalidate:
  "cacheSettled s \<Longrightarrow> cacheSettled (invalidateCache k s)"
  "cacheSettled s \<Longrightarrow> cacheSettled (invalidateAllCache s)"
  by (simp_all add: cacheSettled_def invalidateCache_def invalidateAllCache_def)

lemma cacheSettled_step: "cacheSettled s \<Longrightarrow> cacheSettled (step ev s)"
  by (cases ev)
     (simp_all add: cacheSettled_wrapPromise cacheSettled_settlePromise
                    cacheSettled_runReactions cacheSettled_invalidate)

lemma cacheSettled_run: "cacheSettled s \<Longrightarrow> cacheSettled (run evs s)"
  unfolding run_def by (induction evs arbitrary: s) (simp_all add: cacheSettled_step)

lemma cacheSettled_reachable: "cacheSettled (run evs emptySuspense)"
  by (simp add: cacheSettled_run cacheSettled_empty)

lemma cacheSettled_status:
  "cacheSettled s \<Longrightarrow> suspenseCache s k = Some r \<Longrightarrow>
     k \<noteq> [] \<and> (status_sc (resources s r) = Fulfilled \<or> status_sc (resources s r) = Rejected)"
  by (cases "status_sc (resources s r)") (auto simp: cacheSettled_def)

lemma wrapPromise_never_cached_pending:
  "fst (wrapPromise p ck (run evs emptySuspense)) \<noteq> Inl (ThrownPromise x)"
proof -
  have inv: "cacheSettled (run evs emptySuspense)" by (rule cacheSettled_reachable)
  show ?thesis
    using cacheSettled_status [OF inv]
    by (auto simp: wrapPromise_def Let_def split: option.splits)
qed

lemma wrapPromise_hit_fulfilled:
  "k \<noteq> [] \<Longrightarrow> suspenseCache s k = Some r \<Longrightarrow> status_sc (resources s r) = Fulfilled \<Longrightarrow>
     readWrapped q (Some k) s = (Inr (value_sc (resources s r)), s)"
  by (simp add: readWrapped_def wrapPromise_def Let_def)

lemma wrapPromise_hit_rejected:
  "k \<noteq> [] \<Longrightarrow> suspenseCache s k = Some r \<Longrightarrow> status_sc (resources s r) = Rejected \<Longrightarrow>
     readWrapped q (Some k) s = (Inl (ThrownError (error_sc (resources s r))), s)"
  by (simp add: readWrapped_def wrapPromise_def Let_def)

lemma linked_empty: "linked emptySuspense"
  by (simp add: linked_def emptySuspense_def)

lemma linked_wrapPromise: "linked s \<Longrightarrow> linked (snd (wrapPromise p ck s))"
  unfolding linked_def wrapPromise_def Let_def
  by (auto split: option.splits simp: less_Suc_eq)

lemma linked_invalidate:
  "linked s \<Longrightarrow> linked (invalidateCache k s)"
  "linked s \<Longrightarrow> linked (invalidateAllCache s)"
  by (simp_all add: linked_def invalidateCache_def invalidateAllCache_def)

lemma linked_runReaction:
  assumes "linked (s\<lparr>reactions := x # xs\<rparr>)" and "promiseState s (fst x) \<noteq> PPending"
  shows "linked ((runReaction x s)\<lparr>reactions := xs\<rparr>)"
proof -
  obtain p r ck where x: "x = (p, r, ck)" by (cases x) auto
  from assms(1) have d: "r \<notin> (\<lambda>x. fst (snd x)) ` set xs"
    and pr: "status_sc (resources s r) = Pending" "promise_sc (resources s r) = Some p"
    by (auto simp: linked_def x)
  show ?thesis
  proof (cases "promiseState s p")
    case PPending
    with assms(2) x show ?thesis by simp
  next
    case (PFulfilled v)
    with assms(1) d pr show ?thesis
      unfolding linked_def x
      by (auto simp: onFulfilled_def Let_def split: option.splits)
  next
    case (PRejected e)
    with assms(1) d pr show ?thesis
      unfolding linked_def x
      by (auto simp: onRejected_def Let_def split: option.splits)
  qed
qed

lemma linked_fold_runReaction:
  "linked (s\<lparr>reactions := xs @ ws\<rparr>) \<Longrightarrow> \<forall>x \<in> set xs. promiseState s (fst x) \<noteq> PPending
     \<Longrightarrow> linked ((fold runReaction xs s)\<lparr>reactions := ws\<rparr>)"
proof (induction xs arbitrary: s)
  case Nil
  then show ?case by simp
next
  case (Cons x xs)
  have "linked ((runReaction x s)\<lparr>reactions := xs @ ws\<rparr>)"
    using linked_runReaction [where s = s and x = x and xs = "xs @ ws"] Cons.prems by simp
  moreover have "\<forall>y \<in> set xs. promiseState (runReaction x s) (fst y) \<noteq> PPending"
    using Cons.prems by simp
  ultimately show ?case
    using Cons.IH [of "runReaction x s"] by simp
qed

lemma runReaction_reactions_update:
  "runReaction x (s\<lparr>reactions := ws\<rparr>) = (runReaction x s)\<lparr>reactions := ws\<rparr>"
  by (cases x)
     (simp add: onFulfilled_def onRejected_def Let_def split: pstate.splits option.splits)

lemma fold_runReaction_reactions_update:
  "fold runReaction xs (s\<lparr>reactions := ws\<rparr>) = (fold runReaction xs s)\<lparr>reactions := ws\<rparr>"
  by (induction xs arbitrary: s) (simp_all add: runReaction_reactions_update)

lemma distinct_map_partition:
  "distinct (map f xs) \<Longrightarrow> distinct (map f (filter P xs @ filter (\<lambda>x. \<not> P x) xs))"
  by (induction xs) auto

lemma linked_runReactions: "linked s \<Longrightarrow> linked (runReactions s)"
proof -
  assume a: "linked s"
  let ?P = "\<lambda>(p, r, ck). promiseState s p \<noteq> PPending"
  let ?ready = "filter ?P (reactions s)"
  let ?waiting = "filter (\<lambda>(p, r, ck). promiseState s p = PPending) (reactions s)"
  have w: "?waiting = filter (\<lambda>x. \<not> ?P x) (reactions s)"
    by (rule filter_cong) auto
  have "linked (s\<lparr>reactions := ?ready @ ?waiting\<rparr>)"
    using a distinct_map_partition [of "\<lambda>x. fst (snd x)" "reactions s" ?P]
    unfolding w linked_def by auto
  moreover have "\<forall>x \<in> set ?ready. promiseState s (fst x) \<noteq> PPending"
    by auto
  ultimately have "linked ((fold runReaction ?ready s)\<lparr>reactions := ?waiting\<rparr>)"
    by (rule linked_fold_runReaction)
  then show ?thesis by (simp add: runReactions_def fold_runReaction_reactions_update)
qed

lemma linked_settlePromise: "linked s \<Longrightarrow> linked (settlePromise p out s)"
proof -
  assume a: "linked s"
  show ?thesis
  proof (cases "promiseState s p = PPending \<and> out \<noteq> PPending")
    case True
    have f: "\<exists>q v. promise_sc (resources s r) = Some q
          \<and> ((promiseState s)(p := out)) q = PFulfilled v \<and> value_sc (resources s r) = Some v"
      if "status_sc (resources s r) = Fulfilled" for r
    proof -
      from a that obtain q v where q: "promise_sc (resources s r) = Some q"
        "promiseState s q = PFulfilled v" "value_sc (resources s r) = Some v"
        unfolding linked_def by blast
      with True have "q \<noteq> p" by auto
      with q show ?thesis by auto
    qed
    have g: "\<exists>q e. promise_sc (resources s r) = Some q
          \<and> ((promiseState s)(p := out)) q = PRejected e \<and> error_sc (resources s r) = Some e"
      if "status_sc (resources s r) = Rejected" for r
    proof -
      from a that obtain q e where q: "promise_sc (resources s r) = Some q"
        "promiseState s q = PRejected e" "error_sc (resources s r) = Some e"
        unfolding linked_def by blast
      with True have "q \<noteq> p" by auto
      with q show ?thesis by auto
    qed
    have "linked (s\<lparr>promiseState := (promiseState s)(p := out)\<rparr>)"
      using a f g unfolding linked_def by simp
    then show ?thesis
      using True by (simp add: settlePromise_def linked_runReactions)
  next
    case False
    then show ?thesis using a by (auto simp: settlePromise_def)
  qed
qed

lemma linked_step: "linked s \<Longrightarrow> linked (step ev s)"
  by (cases ev)
     (simp_all add: linked_wrapPromise linked_settlePromise linked_runReactions
                    linked_invalidate)

lemma linked_run: "linked s \<Longrightarrow> linked (run evs s)"
  unfolding run_def by (induction evs arbitrary: s) (simp_all add: linked_step)

lemma linked_reachable: "linked (run evs emptySuspense)"
  by (simp add: linked_run linked_empty)

lemma entryHeld_wrapPromise:
  "entryHeld k r R s \<Longrightarrow> entryHeld k r R (snd (wrapPromise p ck s))"
  unfolding entryHeld_def wrapPromise_def Let_def
  by (auto split: option.splits)

lemma entryHeld_runReaction:
  assumes "entryHeld k r R (s\<lparr>reactions := ws\<rparr>)"
    and "fst (snd x) \<noteq> r" and "truthyKey (snd (snd x)) \<noteq> Some k"
  shows "entryHeld k r R ((runReaction x s)\<lparr>reactions := ws\<rparr>)"
proof -
  obtain p r' ck where x: "x = (p, r', ck)" by (cases x) auto
  show ?thesis
    using assms unfolding entryHeld_def x
    by (auto simp: onFulfilled_def onRejected_def Let_def split: pstate.splits option.splits)
qed

lemma entryHeld_fold_runReaction:
  "entryHeld k r R (s\<lparr>reactions := ws\<rparr>)
     \<Longrightarrow> \<forall>x \<in> set xs. fst (snd x) \<noteq> r \<and> truthyKey (snd (snd x)) \<noteq> Some k
     \<Longrightarrow> entryHeld k r R ((fold runReaction xs s)\<lparr>reactions := ws\<rparr>)"
proof (induction xs arbitrary: s)
  case Nil
  then show ?case by simp
next
  case (Cons x xs)
  have "entryHeld k r R ((runReaction x s)\<lparr>reactions := ws\<rparr>)"
    using entryHeld_runReaction [where s = s and x = x and ws = ws] Cons.prems by simp
  then show ?case
    using Cons.IH [of "runReaction x s"] Cons.prems by simp
qed

lemma entryHeld_runReactions: "entryHeld k r R s \<Longrightarrow> entryHeld k r R (runReactions s)"
proof -
  assume a: "entryHeld k r R s"
  let ?ready = "filter (\<lambda>(p, r, ck). promiseState s p \<noteq> PPending) (reactions s)"
  let ?waiting = "filter (\<lambda>(p, r, ck). promiseState s p = PPending) (reactions s)"
  have "entryHeld k r R (s\<lparr>reactions := ?waiting\<rparr>)"
    using a unfolding entryHeld_def by auto
  moreover have "\<forall>x \<in> set ?ready. fst (snd x) \<noteq> r \<and> truthyKey (snd (snd x)) \<noteq> Some k"
    using a unfolding entryHeld_def by auto
  ultimately have "entryHeld k r R ((fold runReaction ?ready s)\<lparr>reactions := ?waiting\<rparr>)"
    by (rule entryHeld_fold_runReaction)
  then show ?thesis
    by (simp add: runReactions_def fold_runReaction_reactions_update)
qed

lemma entryHeld_settlePromise:
  "entryHeld k r R s \<Longrightarrow> entryHeld k r R (settlePromise p out s)"
proof -
  assume a: "entryHeld k r R s"
  then have "entryHeld k r R (s\<lparr>promiseState := (promiseState s)(p := out)\<rparr>)"
    by (simp add: entryHeld_def)
  then show ?thesis
    using a by (simp add: settlePromise_def entryHeld_runReactions)
qed

lemma entryHeld_step:
  "entryHeld k r R s \<Longrightarrow> \<not> invalidates k ev \<Longrightarrow> entryHeld k r R (step ev s)"
proof (cases ev)
  case (Invalidate k')
  assume "entryHeld k r R s" "\<not> invalidates k ev"
  with Invalidate show ?thesis by (simp add: entryHeld_def invalidateCache_def)
qed (simp_all add: entryHeld_wrapPromise entryHeld_settlePromise entryHeld_runReactions)

lemma entryHeld_run:
  "entryHeld k r R s \<Longrightarrow> \<forall>ev \<in> set evs. \<not> invalidates k ev \<Longrightarrow> entryHeld k r R (run evs s)"
  unfolding run_def by (induction evs arbitrary: s) (simp_all add: entryHeld_step)

lemma entryHeld_reachable:
  assumes "suspenseCache (run evs emptySuspense) k = Some r"
    and "\<forall>x \<in> set (reactions (run evs emptySuspense)). truthyKey (snd (snd x)) \<noteq> Some k"
  shows "entryHeld k r (resources (run evs emptySuspense) r) (run evs emptySuspense)"
proof -
  let ?s = "run evs emptySuspense"
  have c: "cacheSettled ?s" and l: "linked ?s"
    by (rule cacheSettled_reachable, rule linked_reachable)
  from c assms(1) have "r < nextRid ?s" "k \<noteq> []" "status_sc (resources ?s r) \<noteq> Pending"
    by (auto simp: cacheSettled_def)
  moreover from l this(3) have "\<forall>x \<in> set (reactions ?s). fst (snd x) \<noteq> r"
    by (auto simp: linked_def)
  ultimately show ?thesis
    using assms by (simp add: entryHeld_def)
qed

lemma entryHeld_read_rejected:
  "entryHeld k r R s \<Longrightarrow> status_sc R = Rejected \<Longrightarrow>
     readWrapped q (Some k) s = (Inl (ThrownError (error_sc R)), s)"
  by (auto simp: entryHeld_def wrapPromise_hit_rejected)

lemma entryHeld_read_fulfilled:
  "entryHeld k r R s \<Longrightarrow> status_sc R = Fulfilled \<Longrightarrow>
     readWrapped q (Some k) s = (Inr (value_sc R), s)"
  by (auto simp: entryHeld_def wrapPromise_hit_fulfilled)

lemma rejected_error_of_promise:
  assumes "suspenseCache (run evs emptySuspense) k = Some r"
    and "promise_sc (resources (run evs emptySuspense) r) = Some p"
    and "promiseState (run evs emptySuspense) p = PRejected e"
  shows "status_sc (resources (run evs emptySuspense) r) = Rejected
       \<and> error_sc (resources (run evs emptySuspense) r) = Some e"
proof -
  let ?s = "run evs emptySuspense"
  have c: "cacheSettled ?s" and l: "linked ?s"
    by (rule cacheSettled_reachable, rule linked_reachable)
  from cacheSettled_status [OF c assms(1)]
  have "status_sc (resources ?s r) = Fulfilled \<or> status_sc (resources ?s r) = Rejected"
    by simp
  then show ?thesis
  proof
    assume "status_sc (resources ?s r) = Fulfilled"
    with l obtain q v where "promise_sc (resources ?s r) = Some q" "promiseState ?s q = PFulfilled v"
      unfolding linked_def by blast
    with assms show ?thesis by simp
  next
    assume st: "status_sc (resources ?s r) = Rejected"
    with l obtain q e' where "promise_sc (resources ?s r) = Some q"
      "promiseState ?s q = PRejected e'" "error_sc (resources ?s r) = Some e'"
      unfolding linked_def by blast
    with assms st show ?thesis by simp
  qed
qed

lemma fulfilled_value_of_promise:
  assumes "suspenseCache (run evs emptySuspense) k = Some r"
    and "promise_sc (resources (run evs emptySuspense) r) = Some p"
    and "promiseState (run evs emptySuspense) p = PFulfilled v"
  shows "status_sc (resources (run evs emptySuspense) r) = Fulfilled
       \<and> value_sc (resources (run evs emptySuspense) r) = Some v"
proof -
  let ?s = "run evs emptySuspense"
  have c: "cacheSettled ?s" and l: "linked ?s"
    by (rule cacheSettled_reachable, rule linked_reachable)
  from cacheSettled_status [OF c assms(1)]
  have "status_sc (resources ?s r) = Fulfilled \<or> status_sc (resources ?s r) = Rejected"
    by simp
  then show ?thesis
  proof
    assume st: "status_sc (resources ?s r) = Fulfilled"
    with l obtain q v' where "promise_sc (resources ?s r) = Some q"
      "promiseState ?s q = PFulfilled v'" "value_sc (resources ?s r) = Some v'"
      unfolding linked_def by blast
    with assms st show ?thesis by simp
  next
    assume "status_sc (resources ?s r) = Rejected"
    with l obtain q e where "promise_sc (resources ?s r) = Some q"
      "promiseState ?s q = PRejected e"
      unfolding linked_def by blast
    with assms show ?thesis by simp
  qed
qed

lemma wrapPromise_fulfilled_stays:
  assumes "suspenseCache (run hs0 emptySuspense) k = Some r"
    and "promise_sc (resources (run hs0 emptySuspense) r) = Some p"
    and "promiseState (run hs0 emptySuspense) p = PFulfilled v"
    and "\<forall>x \<in> set (reactions (run hs0 emptySuspense)). truthyKey (snd (snd x)) \<noteq> Some k"
    and "\<forall>ev \<in> set hs1. \<not> invalidates k ev"
  shows "readWrapped q (Some k) (run hs1 (run hs0 emptySuspense))
       = (Inr (Some v), run hs1 (run hs0 emptySuspense))"
proof -
  let ?s = "run hs0 emptySuspense"
  have st: "status_sc (resources ?s r) = Fulfilled" "value_sc (resources ?s r) = Some v"
    using fulfilled_value_of_promise [OF assms(1,2,3)] by simp_all
  have "entryHeld k r (resources ?s r) ?s"
    using entryHeld_reachable [OF assms(1,4)] .
  with assms(5) have "entryHeld k r (resources ?s r) (run hs1 ?s)"
    using entryHeld_run by blast
  from entryHeld_read_fulfilled [OF this st(1), of q] st(2)
  show ?thesis by simp
qed

section \<open>Facts about the promise caches\<close>

lemma getCachedPromise_hit: "cache w k = Some p \<Longrightarrow> getCachedPromise k f w = (Inr p, w)"
  by (simp add: getCachedPromise_def)

lemma cachedFetch_hit: "cache w k = Some p \<Longrightarrow> cachedFetch k f w = (Inr p, w)"
  by (simp add: cachedFetch_def)

lemma readCached_hit: "cache w k = Some p \<Longrightarrow> readCached k f w = (use p w, w)"
  by (simp add: readCached_def getCachedPromise_hit)

lemma getCachedPromise_miss_Starts:
  "cache w k = None \<Longrightarrow>
     getCachedPromise k Starts w =
       (Inr (nextPid w),
        w\<lparr>promises := (promises w)(nextPid w := PPending), nextPid := Suc (nextPid w),
          invoked := invoked w @ [k], cache := (cache w)(k \<mapsto> nextPid w)\<rparr>)"
  by (simp add: getCachedPromise_def)

lemma getCachedPromise_deduplicates:
  assumes "cache w k = None"
  shows "fst (getCachedPromise k Starts w) = Inr (nextPid w)
       \<and> getCachedPromise k g (snd (getCachedPromise k Starts w))
           = (Inr (nextPid w), snd (getCachedPromise k Starts w))
       \<and> invoked (snd (getCachedPromise k g (snd (getCachedPromise k Starts w))))
           = invoked w @ [k]"
  using assms by (simp add: getCachedPromise_miss_Starts getCachedPromise_hit)

lemma fold_catch_fields:
  "promises (fold (\<lambda>(q, k) w'. if q = p then cacheDelete k w' else w') hs w) = promises w"
  "nextPid (fold (\<lambda>(q, k) w'. if q = p then cacheDelete k w' else w') hs w) = nextPid w"
  "handlers (fold (\<lambda>(q, k) w'. if q = p then cacheDelete k w' else w') hs w) = handlers w"
  "invoked (fold (\<lambda>(q, k) w'. if q = p then cacheDelete k w' else w') hs w) = invoked w"
  by (induction hs arbitrary: w; simp add: cacheDelete_def split: prod.splits)+

lemma fold_catch_cache:
  "cache (fold (\<lambda>(q, k) w'. if q = p then cacheDelete k w' else w') hs w) k
     = (if (p, k) \<in> set hs then None else cache w k)"
  by (induction hs arbitrary: w) (auto simp: cacheDelete_def split: prod.splits)

lemma runCatch_cache:
  "cache (runCatch p w) k = (if (p, k) \<in> set (handlers w) then None else cache w k)"
  by (simp add: runCatch_def fold_catch_cache)

lemma runCatch_fields:
  "promises (runCatch p w) = promises w"
  "nextPid (runCatch p w) = nextPid w"
  "handlers (runCatch p w) = handlers w"
  "invoked (runCatch p w) = invoked w"
  by (simp_all add: runCatch_def fold_catch_fields)

lemma cachedFetch_miss_Starts:
  "cache w k = None \<Longrightarrow>
     cachedFetch k Starts w =
       (Inr (nextPid w),
        w\<lparr>promises := (promises w)(nextPid w := PPending), nextPid := Suc (nextPid w),
          invoked := invoked w @ [k], cache := (cache w)(k \<mapsto> nextPid w),
          handlers := handlers w @ [(nextPid w, k)]\<rparr>)"
  by (simp add: cachedFetch_def)

lemma cachedFetch_reject_refetch:
  assumes "cache w k = None"
  shows "cache (settle (nextPid w) (PRejected e) (snd (cachedFetch k Starts w))) k = None
       \<and> fst (cachedFetch k Starts (settle (nextPid w) (PRejected e) (snd (cachedFetch k Starts w))))
           = Inr (Suc (nextPid w))
       \<and> invoked (snd (cachedFetch k Starts
            (settle (nextPid w) (PRejected e) (snd (cachedFetch k Starts w)))))
           = invoked w @ [k, k]"
proof -
  let ?w1 = "snd (cachedFetch k Starts w)"
  let ?w2 = "settle (nextPid w) (PRejected e) ?w1"
  have w1: "promises ?w1 (nextPid w) = PPending" "(nextPid w, k) \<in> set (handlers ?w1)"
    "nextPid ?w1 = Suc (nextPid w)" "invoked ?w1 = invoked w @ [k]"
    using assms by (simp_all add: cachedFetch_miss_Starts)
  have c2: "cache ?w2 k = None"
    using w1 by (simp add: settle_def runCatch_cache)
  have n2: "nextPid ?w2 = Suc (nextPid w)" "invoked ?w2 = invoked w @ [k]"
    using w1 by (simp_all add: settle_def runCatch_fields)
  show ?thesis
    using c2 n2 by (simp add: cachedFetch_miss_Starts)
qed

lemma settle_no_handlers:
  "handlers w = [] \<Longrightarrow>
     settle p out w = (if promises w p = PPending \<and> out \<noteq> PPending
                       then w\<lparr>promises := (promises w)(p := out)\<rparr> else w)"
  by (cases out) (simp_all add: settle_def runCatch_def)

lemma allocated_empty: "allocated emptyCache"
  by (simp add: allocated_def emptyCache_def)

lemma allocated_step: "allocated w \<Longrightarrow> allocated (cacheStep ev w)"
proof (cases ev)
  case (GetCached k f)
  assume "allocated w"
  then show ?thesis
    unfolding GetCached allocated_def
    by (cases f) (auto simp: getCachedPromise_def less_Suc_eq split: option.splits)
next
  case (Settles p out)
  assume "allocated w"
  then show ?thesis
    unfolding Settles allocated_def by (simp add: settle_no_handlers)
next
  case (Deletes k)
  assume "allocated w"
  then show ?thesis
    unfolding Deletes allocated_def by (simp add: cacheDelete_def)
next
  case Clears
  assume "allocated w"
  then show ?thesis
    unfolding Clears allocated_def by (simp add: cacheClear_def)
qed

lemma allocated_run: "allocated w \<Longrightarrow> allocated (cacheRun evs w)"
  unfolding cacheRun_def by (induction evs arbitrary: w) (simp_all add: allocated_step)

lemma promiseHeld_step:
  "promiseHeld k p st w \<Longrightarrow> \<not> removes k ev \<Longrightarrow> promiseHeld k p st (cacheStep ev w)"
proof (cases ev)
  case (GetCached k' f)
  assume "promiseHeld k p st w" "\<not> removes k ev"
  then show ?thesis
    unfolding GetCached promiseHeld_def
    by (cases f) (auto simp: getCachedPromise_def split: option.splits)
next
  case (Settles q out)
  assume "promiseHeld k p st w" "\<not> removes k ev"
  then show ?thesis
    unfolding Settles promiseHeld_def by (auto simp: settle_no_handlers)
next
  case (Deletes k')
  assume "promiseHeld k p st w" "\<not> removes k ev"
  then show ?thesis
    unfolding Deletes promiseHeld_def by (auto simp: cacheDelete_def)
next
  case Clears
  assume "promiseHeld k p st w" "\<not> removes k ev"
  then show ?thesis
    unfolding Clears by simp
qed

lemma promiseHeld_run:
  "promiseHeld k p st w \<Longrightarrow> \<forall>ev \<in> set evs. \<not> removes k ev
     \<Longrightarrow> promiseHeld k p st (cacheRun evs w)"
  unfolding cacheRun_def by (induction evs arbitrary: w) (simp_all add: promiseHeld_step)

lemma promiseHeld_reachable:
  assumes "cache (cacheRun evs emptyCache) k = Some p"
    and "promises (cacheRun evs emptyCache) p = st" and "st \<noteq> PPending"
  shows "promiseHeld k p st (cacheRun evs emptyCache)"
  using allocated_run [OF allocated_empty, of evs] assms
  by (auto simp: allocated_def promiseHeld_def)

lemma promiseHeld_read:
  "promiseHeld k p st w \<Longrightarrow> readCached k f w = (use p w, w) \<and> promises w p = st"
  by (simp add: promiseHeld_def readCached_hit)

lemma callFetcher_invoked: "invoked (snd (callFetcher f k w)) = invoked w @ [k]"
  by (cases f) simp_all

lemma reset_owner:
  "onReset (props b) = Some k \<Longrightarrow>
     reset props b a =
       a\<lparr>boundaries := (boundaries a)(b := \<lparr>hasError = False, error = None\<rparr>),
         store := cacheDelete k (store a), resetKey := resetKey a + 1\<rparr>"
  by (simp add: reset_def handleSectionReset_def Let_def)

lemma getCachedPromise_miss_invoked:
  "cache w k = None \<Longrightarrow> invoked (snd (getCachedPromise k f w)) = invoked w @ [k]"
  by (cases f) (simp_all add: getCachedPromise_def)

lemma readCached_invoked:
  "cache w k = None \<Longrightarrow> invoked (snd (readCached k f w)) = invoked w @ [k]"
  by (cases f) (simp_all add: readCached_def getCachedPromise_def)

lemma readCached_miss_Starts:
  "cache w k = None \<Longrightarrow>
     readCached k Starts w =
       (Inl (ThrownPromise (nextPid w)),
        w\<lparr>promises := (promises w)(nextPid w := PPending), nextPid := Suc (nextPid w),
          invoked := invoked w @ [k], cache := (cache w)(k \<mapsto> nextPid w)\<rparr>)"
  by (simp add: readCached_def getCachedPromise_miss_Starts use_def)

lemma getCachedPromise_settled_stays:
  assumes "cache (cacheRun evs0 emptyCache) k = Some p"
    and "promises (cacheRun evs0 emptyCache) p = st" and "st \<noteq> PPending"
    and "\<forall>ev \<in> set evs1. \<not> removes k ev"
  shows "readCached k f (cacheRun evs1 (cacheRun evs0 emptyCache))
       = (case st of PFulfilled v \<Rightarrow> Inr v | PRejected e \<Rightarrow> Inl (ThrownError e)
          | PPending \<Rightarrow> Inl (ThrownPromise p),
          cacheRun evs1 (cacheRun evs0 emptyCache))"
proof -
  have "promiseHeld k p st (cacheRun evs1 (cacheRun evs0 emptyCache))"
    using promiseHeld_run [OF promiseHeld_reachable [OF assms(1,2,3)] assms(4)] .
  from promiseHeld_read [OF this, of f] show ?thesis
    by (simp add: use_def)
qed

section \<open>Facts about the way of a thrown value through the boundaries\<close>

lemma through_rendered:
  "fold throughBoundary path (Inr v, states) = (Inr v, states)"
proof (induction path)
  case Nil
  show ?case by simp
next
  case (Cons x path)
  then show ?case
    by (cases x) (simp_all add: Suspense_def catchBoundary_def)
qed

lemma through_pending:
  "fold throughBoundary path (Inl (ThrownPromise p), states) = (Inl (ThrownPromise p), states)
   \<or> fold throughBoundary path (Inl (ThrownPromise p), states) = (Inr SuspenseFallback, states)"
proof (induction path)
  case Nil
  show ?case by simp
next
  case (Cons x path)
  then show ?case
    by (cases x) (simp_all add: Suspense_def catchBoundary_def through_rendered)
qed

lemma through_failure:
  "fst (fold throughBoundary path (Inl (ThrownError e), states)) = Inl (ThrownError e)
   \<or> fst (fold throughBoundary path (Inl (ThrownError e), states)) = Inr ErrorFallback"
proof (induction path arbitrary: states)
  case Nil
  show ?case by simp
next
  case (Cons x path)
  then show ?case
    by (cases x) (simp_all add: Suspense_def catchBoundary_def through_rendered)
qed

section \<open>Facts about the renders of the dashboard\<close>

lemma renderSection_cases:
  "renderSection props reads b a =
     (if render (props b) (boundaries a b) = Children then
        (case readSection (fst (reads b)) (snd (reads b)) a of
           (Inr v, a') \<Rightarrow> a'
         | (Inl (ThrownPromise p), a') \<Rightarrow> a'
         | (Inl (ThrownError e), a') \<Rightarrow> capture b (Some e) a')
      else a)"
  by (simp add: renderSection_def propagate_def Suspense_def catchBoundary_def capture_def
           split: prod.splits sum.splits thrown.splits)

lemma readSection_hit:
  "cache (store a) k = Some p \<Longrightarrow> readSection k f a = (use p (store a), a)"
  by (simp add: readSection_def readCached_hit)

lemma readSection_miss_Starts:
  "cache (store a) k = None \<Longrightarrow>
     readSection k Starts a =
       (Inl (ThrownPromise (nextPid (store a))),
        a\<lparr>store := (store a)\<lparr>promises := (promises (store a))(nextPid (store a) := PPending),
             nextPid := Suc (nextPid (store a)), invoked := invoked (store a) @ [k],
             cache := (cache (store a))(k \<mapsto> nextPid (store a))\<rparr>\<rparr>)"
  by (simp add: readSection_def readCached_miss_Starts)

lemma readSection_miss_Throws:
  "cache (store a) k = None \<Longrightarrow>
     readSection k (Throws e) a =
       (Inl (ThrownError e), a\<lparr>store := (store a)\<lparr>invoked := invoked (store a) @ [k]\<rparr>\<rparr>)"
  by (simp add: readSection_def readCached_def getCachedPromise_def)

lemma render_initialState [simp]: "render pr initialState = Children"
  by (simp add: render_def initialState_def)

lemma render_failed [simp]:
  "render pr \<lparr>hasError = True, error = Some e\<rparr> \<noteq> Children"
  by (simp add: render_def)

lemma renderSection_other_keys:
  "k \<noteq> fst (reads b) \<Longrightarrow>
     cache (store (renderSection props reads b a)) k = cache (store a) k"
proof (cases "cache (store a) (fst (reads b))")
  case (Some q)
  assume "k \<noteq> fst (reads b)"
  with Some show ?thesis
    by (auto simp: renderSection_cases readSection_hit capture_def
             split: sum.splits thrown.splits)
next
  case None
  assume "k \<noteq> fst (reads b)"
  with None show ?thesis
    by (cases "snd (reads b)")
       (auto simp: renderSection_cases readSection_miss_Starts readSection_miss_Throws
                   capture_def)
qed

lemma renderSection_fields [simp]:
  "handlers (store (renderSection props reads b a)) = handlers (store a)"
  "resetKey (renderSection props reads b a) = resetKey a"
  "mountedKey (renderSection props reads b a) = mountedKey a"
proof -
  show "handlers (store (renderSection props reads b a)) = handlers (store a)"
    by (cases "cache (store a) (fst (reads b))"; cases "snd (reads b)")
       (auto simp: renderSection_cases readSection_hit readSection_miss_Starts
                   readSection_miss_Throws capture_def split: sum.splits thrown.splits)
  show "resetKey (renderSection props reads b a) = resetKey a"
    by (cases "cache (store a) (fst (reads b))"; cases "snd (reads b)")
       (auto simp: renderSection_cases readSection_hit readSection_miss_Starts
                   readSection_miss_Throws capture_def split: sum.splits thrown.splits)
  show "mountedKey (renderSection props reads b a) = mountedKey a"
    by (cases "cache (store a) (fst (reads b))"; cases "snd (reads b)")
       (auto simp: renderSection_cases readSection_hit readSection_miss_Starts
                   readSection_miss_Throws capture_def split: sum.splits thrown.splits)
qed

lemma renderSection_other_boundary:
  "c \<noteq> b \<Longrightarrow> boundaries (renderSection props reads b a) c = boundaries a c"
  by (cases "cache (store a) (fst (reads b))"; cases "snd (reads b)")
     (auto simp: renderSection_cases readSection_hit readSection_miss_Starts
                 readSection_miss_Throws capture_def split: sum.splits thrown.splits)

lemma outside_refl: "outside K w w"
  by (simp add: outside_def)

lemma outside_trans: "outside K w w' \<Longrightarrow> outside K w' w'' \<Longrightarrow> outside K w w''"
  by (auto simp: outside_def)

lemma outside_cacheDelete: "outside K w (cacheDelete K w)"
  by (simp add: outside_def cacheDelete_def)

lemma renderSection_hit_store:
  "cache (store a) (fst (reads c)) = Some p \<Longrightarrow>
     store (renderSection props reads c a) = store a"
  by (auto simp: renderSection_cases readSection_hit capture_def
           split: sum.splits thrown.splits)

lemma renderSection_outside:
  "outside (fst (reads c)) (store a) (store (renderSection props reads c a))"
proof (cases "cache (store a) (fst (reads c))")
  case (Some p)
  then show ?thesis by (simp add: renderSection_hit_store outside_refl)
next
  case None
  then show ?thesis
    by (cases "snd (reads c)")
       (auto simp: renderSection_cases readSection_miss_Starts readSection_miss_Throws
                   capture_def outside_def)
qed

lemma renderSection_idem:
  assumes "showsEntry reads a b"
  shows "renderSection props reads b a = a"
proof -
  from assms obtain p where p: "cache (store a) (fst (reads b)) = Some p"
    and st: "boundaries a b = (case promises (store a) p of
                 PRejected e \<Rightarrow> \<lparr>hasError = True, error = Some e\<rparr>
               | _ \<Rightarrow> initialState)"
    by (auto simp: showsEntry_def split: option.splits)
  show ?thesis
  proof (cases "promises (store a) p")
    case PPending
    with p st show ?thesis
      by (simp add: renderSection_cases readSection_hit use_def)
  next
    case (PFulfilled v)
    with p st show ?thesis
      by (simp add: renderSection_cases readSection_hit use_def)
  next
    case (PRejected e)
    with p st show ?thesis
      by (simp add: renderSection_cases)
  qed
qed

lemma renderSection_shows:
  assumes "rendersFrom reads a b" and "snd (reads b) = Starts"
  shows "showsEntry reads (renderSection props reads b a) b"
proof (cases "cache (store a) (fst (reads b))")
  case None
  with assms have "boundaries a b = initialState" by (simp add: rendersFrom_def)
  with None assms(2) show ?thesis
    by (simp add: renderSection_cases readSection_miss_Starts showsEntry_def)
next
  case (Some p)
  with assms have lt: "p < nextPid (store a)"
    and st: "boundaries a b = initialState
             \<or> (case promises (store a) p of
                  PRejected e \<Rightarrow> boundaries a b = \<lparr>hasError = True, error = Some e\<rparr>
                | _ \<Rightarrow> False)"
    by (simp_all add: rendersFrom_def)
  show ?thesis
  proof (cases "promises (store a) p")
    case PPending
    with Some lt st show ?thesis
      by (simp add: renderSection_cases readSection_hit use_def showsEntry_def)
  next
    case (PFulfilled v)
    with Some lt st show ?thesis
      by (simp add: renderSection_cases readSection_hit use_def showsEntry_def)
  next
    case (PRejected e)
    with Some lt st show ?thesis
      by (auto simp: renderSection_cases readSection_hit use_def showsEntry_def capture_def
                     getDerivedStateFromError_def)
  qed
qed

lemma showsEntry_outside:
  assumes "showsEntry reads a b" and "outside K (store a) (store a')"
    and "fst (reads b) \<noteq> K" and "boundaries a' b = boundaries a b"
  shows "showsEntry reads a' b"
  using assms by (auto simp: showsEntry_def outside_def split: option.splits)

lemma rendersFrom_outside:
  assumes "rendersFrom reads a b" and "outside K (store a) (store a')"
    and "fst (reads b) \<noteq> K" and "boundaries a' b = boundaries a b"
  shows "rendersFrom reads a' b"
proof (cases "cache (store a) (fst (reads b))")
  case None
  with assms show ?thesis by (simp add: rendersFrom_def outside_def)
next
  case (Some p)
  with assms have "p < nextPid (store a)" by (simp add: rendersFrom_def)
  with assms Some have "cache (store a') (fst (reads b)) = Some p"
    "promises (store a') p = promises (store a) p" "p < nextPid (store a')"
    by (auto simp: outside_def)
  with assms Some show ?thesis
    by (cases "promises (store a) p") (auto simp: rendersFrom_def)
qed

lemma renderSection_keeps_shows:
  "showsEntry reads a b \<Longrightarrow> fst (reads c) \<noteq> fst (reads b) \<Longrightarrow>
     showsEntry reads (renderSection props reads c a) b"
proof -
  assume s: "showsEntry reads a b" and ne: "fst (reads c) \<noteq> fst (reads b)"
  from ne have "b \<noteq> c" by auto
  then have "boundaries (renderSection props reads c a) b = boundaries a b"
    by (rule renderSection_other_boundary)
  with s ne show ?thesis
    using showsEntry_outside [OF s renderSection_outside [of reads c a props]] by auto
qed

lemma renderSection_keeps_rendersFrom:
  "rendersFrom reads a b \<Longrightarrow> fst (reads c) \<noteq> fst (reads b) \<Longrightarrow>
     rendersFrom reads (renderSection props reads c a) b"
proof -
  assume s: "rendersFrom reads a b" and ne: "fst (reads c) \<noteq> fst (reads b)"
  from ne have "b \<noteq> c" by auto
  then have "boundaries (renderSection props reads c a) b = boundaries a b"
    by (rule renderSection_other_boundary)
  with s ne show ?thesis
    using rendersFrom_outside [OF s renderSection_outside [of reads c a props]] by auto
qed

lemma dashboard_keys:
  "b < 3 \<Longrightarrow> c < 3 \<Longrightarrow> b \<noteq> c \<Longrightarrow> fst (dashboardReads b) \<noteq> fst (dashboardReads c)"
  by (auto simp: dashboardReads_def)

lemma dashboard_async [simp]: "snd (dashboardReads b) = Starts"
  by (simp add: dashboardReads_def)

lemma dashboard_scope: "onReset (dashboardProps b) = Some (fst (dashboardReads b))"
  by (simp add: dashboardProps_def dashboardReads_def)

lemma showsEntry_cong:
  "showsEntry reads a b \<Longrightarrow> store a' = store a \<Longrightarrow> boundaries a' b = boundaries a b
     \<Longrightarrow> showsEntry reads a' b"
  by (auto simp: showsEntry_def split: option.splits)

lemma showsEntry_entry:
  "showsEntry reads a b \<Longrightarrow> \<exists>p. cache (store a) (fst (reads b)) = Some p"
  by (auto simp: showsEntry_def split: option.splits)

lemma render3_shows:
  fixes a :: "('v, 'e) app"
  assumes "rendersFrom dashboardReads a 0" and "rendersFrom dashboardReads a 1"
    and "rendersFrom dashboardReads a 2"
  shows "showsEntry dashboardReads
           (fold (renderSection dashboardProps dashboardReads) [0, 1, 2] a) 0
       \<and> showsEntry dashboardReads
           (fold (renderSection dashboardProps dashboardReads) [0, 1, 2] a) 1
       \<and> showsEntry dashboardReads
           (fold (renderSection dashboardProps dashboardReads) [0, 1, 2] a) 2"
proof -
  let ?R = "dashboardReads :: nat \<Rightarrow> key \<times> 'e fetcher"
  let ?rs = "renderSection dashboardProps ?R"
  have k01: "fst (?R 0) \<noteq> fst (?R 1)" and k02: "fst (?R 0) \<noteq> fst (?R 2)"
    and k12: "fst (?R 1) \<noteq> fst (?R 2)"
    by (simp_all add: dashboardReads_def)
  have s0: "showsEntry ?R (?rs 0 a) 0"
    using assms(1) by (simp add: renderSection_shows)
  have r1: "rendersFrom ?R (?rs 0 a) 1"
    using assms(2) k01 by (simp add: renderSection_keeps_rendersFrom)
  have r2: "rendersFrom ?R (?rs 0 a) 2"
    using assms(3) k02 by (simp add: renderSection_keeps_rendersFrom)
  have s1: "showsEntry ?R (?rs 1 (?rs 0 a)) 1"
    using r1 by (simp add: renderSection_shows)
  have s0': "showsEntry ?R (?rs 1 (?rs 0 a)) 0"
    using s0 k01 by (simp add: renderSection_keeps_shows)
  have r2': "rendersFrom ?R (?rs 1 (?rs 0 a)) 2"
    using r2 k12 by (simp add: renderSection_keeps_rendersFrom)
  have s2: "showsEntry ?R (?rs 2 (?rs 1 (?rs 0 a))) 2"
    using r2' by (simp add: renderSection_shows)
  have s0'': "showsEntry ?R (?rs 2 (?rs 1 (?rs 0 a))) 0"
    using s0' k02 by (simp add: renderSection_keeps_shows)
  have s1': "showsEntry ?R (?rs 2 (?rs 1 (?rs 0 a))) 1"
    using s1 k12 by (simp add: renderSection_keeps_shows)
  from s2 s0'' s1' show ?thesis by simp
qed

lemma remountOnKey_fields [simp]:
  "store (remountOnKey a) = store a"
  "resetKey (remountOnKey a) = resetKey a"
  "mountedKey (remountOnKey a) = resetKey a"
  by (simp_all add: remountOnKey_def)

lemma fold_renderSection_fields [simp]:
  "handlers (store (fold (renderSection props reads) bs a)) = handlers (store a)"
  "resetKey (fold (renderSection props reads) bs a) = resetKey a"
  "mountedKey (fold (renderSection props reads) bs a) = mountedKey a"
  by (induction bs arbitrary: a) simp_all

lemma dashOk_renderDashboard:
  assumes "handlers (store a) = []"
    and "rendersFrom dashboardReads (remountOnKey a) 0"
    and "rendersFrom dashboardReads (remountOnKey a) 1"
    and "rendersFrom dashboardReads (remountOnKey a) 2"
  shows "dashOk (renderDashboard a)"
  using render3_shows [OF assms(2,3,4)] assms(1)
  unfolding dashOk_def renderDashboard_def renderApp_def
  by simp

lemma dashOk_initial: "dashOk (renderDashboard initialApp)"
  by (rule dashOk_renderDashboard)
     (simp_all add: initialApp_def emptyCache_def remountOnKey_def rendersFrom_def)

lemma showsEntry_settle:
  assumes "showsEntry reads a b" and "handlers (store a) = []"
  shows "rendersFrom reads (a\<lparr>store := settle p out (store a)\<rparr>) b"
proof -
  from assms(1) obtain q where q: "cache (store a) (fst (reads b)) = Some q"
    "q < nextPid (store a)"
    and st: "boundaries a b = (case promises (store a) q of
                 PRejected e \<Rightarrow> \<lparr>hasError = True, error = Some e\<rparr>
               | _ \<Rightarrow> initialState)"
    by (auto simp: showsEntry_def split: option.splits)
  show ?thesis
  proof (cases "promises (store a) q")
    case PPending
    with q st assms(2) show ?thesis
      by (simp add: rendersFrom_def settle_no_handlers)
  next
    case (PFulfilled v)
    with q st assms(2) show ?thesis
      by (simp add: rendersFrom_def settle_no_handlers)
  next
    case (PRejected e)
    with q st assms(2) show ?thesis
      by (auto simp: rendersFrom_def settle_no_handlers)
  qed
qed

lemma showsEntry_remounted:
  assumes "showsEntry reads a b" and "boundaries a' b = initialState"
    and "nextPid (store a') = nextPid (store a)"
    and "cache (store a') (fst (reads b)) = None
         \<or> cache (store a') (fst (reads b)) = cache (store a) (fst (reads b))"
  shows "rendersFrom reads a' b"
  using assms by (auto simp: showsEntry_def rendersFrom_def split: option.splits)

lemma reset_dashboard:
  "reset dashboardProps B a =
     a\<lparr>boundaries := (boundaries a)(B := \<lparr>hasError = False, error = None\<rparr>),
       store := cacheDelete (the (onReset (dashboardProps B))) (store a),
       resetKey := resetKey a + 1\<rparr>"
  by (simp add: reset_def handleSectionReset_def Let_def dashboardProps_def)

lemma remount_after_reset:
  assumes "mountedKey a = resetKey a"
  shows "boundaries (remountOnKey (reset dashboardProps B a)) b = initialState"
    and "store (remountOnKey (reset dashboardProps B a))
         = cacheDelete (the (onReset (dashboardProps B))) (store a)"
  using assms
  by (simp_all add: reset_dashboard remountOnKey_def)

lemma remount_after_refresh:
  assumes "mountedKey a = resetKey a"
  shows "boundaries (remountOnKey (handleGlobalReset a)) b = initialState"
    and "store (remountOnKey (handleGlobalReset a)) = cacheClear (store a)"
  using assms by (simp_all add: handleGlobalReset_def remountOnKey_def)

lemma dashOk_step:
  fixes a :: "('v, 'e) app"
  assumes "dashOk a"
  shows "dashOk (dashStep ev a)"
proof (cases ev)
  case (OperationSettles p out)
  from assms have h: "handlers (store a) = []" and m: "mountedKey a = resetKey a"
    and s: "showsEntry dashboardReads a 0" "showsEntry dashboardReads a 1"
      "showsEntry dashboardReads a 2"
    by (simp_all add: dashOk_def)
  let ?a1 = "a\<lparr>store := settle p out (store a)\<rparr>"
  have r: "remountOnKey ?a1 = ?a1" using m by (simp add: remountOnKey_def)
  have h1: "handlers (store ?a1) = []" using h by (simp add: settle_no_handlers)
  show ?thesis
    unfolding OperationSettles dashStep.simps
    by (rule dashOk_renderDashboard)
       (simp_all only: r h1 showsEntry_settle [OF s(1) h] showsEntry_settle [OF s(2) h]
                       showsEntry_settle [OF s(3) h])
next
  case (Retry B)
  from assms have h: "handlers (store a) = []" and m: "mountedKey a = resetKey a"
    and s: "showsEntry dashboardReads a 0" "showsEntry dashboardReads a 1"
      "showsEntry dashboardReads a 2"
    by (simp_all add: dashOk_def)
  let ?a2 = "remountOnKey (reset dashboardProps B a)"
  have b2: "boundaries ?a2 b = initialState" for b
    by (rule remount_after_reset(1) [OF m])
  have s2: "store ?a2 = cacheDelete (the (onReset (dashboardProps B))) (store a)"
    by (rule remount_after_reset(2) [OF m])
  have r: "rendersFrom dashboardReads ?a2 b" if "showsEntry dashboardReads a b" for b
    using that b2
  proof (rule showsEntry_remounted)
    show "nextPid (store ?a2) = nextPid (store a)"
      unfolding s2 by (simp add: cacheDelete_def)
    let ?k = "fst (dashboardReads b :: key \<times> 'e fetcher)"
    show "cache (store ?a2) ?k = None \<or> cache (store ?a2) ?k = cache (store a) ?k"
      unfolding s2 by (simp add: cacheDelete_def)
  qed
  have h1: "handlers (store (reset dashboardProps B a)) = []"
    using h by (simp add: reset_dashboard cacheDelete_def)
  show ?thesis
    unfolding Retry dashStep.simps
    by (rule dashOk_renderDashboard) (simp_all only: h1 r [OF s(1)] r [OF s(2)] r [OF s(3)])
next
  case Refresh
  from assms have h: "handlers (store a) = []" and m: "mountedKey a = resetKey a"
    and s: "showsEntry dashboardReads a 0" "showsEntry dashboardReads a 1"
      "showsEntry dashboardReads a 2"
    by (simp_all add: dashOk_def)
  let ?a2 = "remountOnKey (handleGlobalReset a)"
  have b2: "boundaries ?a2 b = initialState" for b
    by (rule remount_after_refresh(1) [OF m])
  have s2: "store ?a2 = cacheClear (store a)"
    by (rule remount_after_refresh(2) [OF m])
  have r: "rendersFrom dashboardReads ?a2 b" if "showsEntry dashboardReads a b" for b
    using that b2
  proof (rule showsEntry_remounted)
    show "nextPid (store ?a2) = nextPid (store a)"
      unfolding s2 by (simp add: cacheClear_def)
    let ?k = "fst (dashboardReads b :: key \<times> 'e fetcher)"
    show "cache (store ?a2) ?k = None \<or> cache (store ?a2) ?k = cache (store a) ?k"
      unfolding s2 by (simp add: cacheClear_def)
  qed
  have h1: "handlers (store (handleGlobalReset a)) = []"
    using h by (simp add: handleGlobalReset_def cacheClear_def)
  show ?thesis
    unfolding Refresh dashStep.simps
    by (rule dashOk_renderDashboard) (simp_all only: h1 r [OF s(1)] r [OF s(2)] r [OF s(3)])
qed

lemma dashOk_fold: "dashOk a \<Longrightarrow> dashOk (fold dashStep evs a)"
  by (induction evs arbitrary: a) (simp_all add: dashOk_step)

lemma dashOk_run: "dashOk (dashRun evs)"
  unfolding dashRun_def by (rule dashOk_fold [OF dashOk_initial])

lemma dashOk_shows: "dashOk a \<Longrightarrow> b < 3 \<Longrightarrow> showsEntry dashboardReads a b"
proof -
  assume d: "dashOk a" and "b < 3"
  then have "b = 0 \<or> b = 1 \<or> b = 2" by auto
  with d show ?thesis by (auto simp: dashOk_def)
qed

lemma fold_keeps_boundary:
  assumes "showsEntry reads a A"
    and "\<forall>c \<in> set bs. \<exists>p. cache (store a) (fst (reads c)) = Some p"
  shows "boundaries (fold (renderSection props reads) bs a) A = boundaries a A
       \<and> store (fold (renderSection props reads) bs a) = store a"
  using assms
proof (induction bs arbitrary: a)
  case Nil
  show ?case by simp
next
  case (Cons c bs)
  let ?a' = "renderSection props reads c a"
  from Cons.prems(2) obtain p where p: "cache (store a) (fst (reads c)) = Some p" by auto
  have st: "store ?a' = store a" using p by (rule renderSection_hit_store)
  have bd: "boundaries ?a' A = boundaries a A"
  proof (cases "c = A")
    case True
    with Cons.prems(1) show ?thesis by (simp add: renderSection_idem)
  next
    case False
    then have "A \<noteq> c" by simp
    then show ?thesis by (rule renderSection_other_boundary)
  qed
  have sh: "showsEntry reads ?a' A"
    using Cons.prems(1) st bd by (rule showsEntry_cong)
  have en: "\<forall>c \<in> set bs. \<exists>p. cache (store ?a') (fst (reads c)) = Some p"
    using Cons.prems(2) st by simp
  from Cons.IH [OF sh en] st bd show ?case by simp
qed

lemma fold_outside:
  assumes "\<forall>c \<in> set bs. fst (reads c) = K
                        \<or> (\<exists>p. cache (store a) (fst (reads c)) = Some p)"
  shows "outside K (store a) (store (fold (renderSection props reads) bs a))"
  using assms
proof (induction bs arbitrary: a)
  case Nil
  show ?case by (simp add: outside_refl)
next
  case (Cons c bs)
  let ?a' = "renderSection props reads c a"
  have o: "outside K (store a) (store ?a')"
  proof (cases "fst (reads c) = K")
    case True
    then show ?thesis using renderSection_outside [of reads c a props] by simp
  next
    case False
    with Cons.prems obtain p where "cache (store a) (fst (reads c)) = Some p" by auto
    then show ?thesis by (simp add: renderSection_hit_store outside_refl)
  qed
  have "\<forall>c \<in> set bs. fst (reads c) = K
                    \<or> (\<exists>p. cache (store ?a') (fst (reads c)) = Some p)"
  proof
    fix d assume d: "d \<in> set bs"
    show "fst (reads d) = K \<or> (\<exists>p. cache (store ?a') (fst (reads d)) = Some p)"
    proof (cases "fst (reads d) = K")
      case True
      then show ?thesis by simp
    next
      case False
      with Cons.prems d obtain p where "cache (store a) (fst (reads d)) = Some p" by auto
      with o False show ?thesis by (simp add: outside_def)
    qed
  qed
  from Cons.IH [OF this] o show ?case
    by (simp add: outside_trans [of K "store a" "store ?a'"])
qed

lemma shows_agree:
  assumes "showsEntry reads a b" and "showsEntry reads a' b"
    and "outside K (store a) (store a')" and "fst (reads b) \<noteq> K"
  shows "boundaries a' b = boundaries a b"
  using assms by (auto simp: showsEntry_def outside_def split: option.splits)

lemma dashboard_declares: "onReset (dashboardProps B) = Some (the (onReset (dashboardProps B)))"
  by (simp add: dashboardProps_def)

lemma dashboard_other_scope:
  "A < 3 \<Longrightarrow> B < 3 \<Longrightarrow> A \<noteq> B \<Longrightarrow> fst (dashboardReads A) \<noteq> the (onReset (dashboardProps B))"
  by (auto simp: dashboardReads_def dashboardProps_def)

lemma renderSection_throwing_producer:
  assumes "boundaries a b = initialState" and "cache (store a) (fst (reads b)) = None"
    and "snd (reads b) = Throws e"
  shows "renderSection props reads b a =
           capture b (Some e)
             (a\<lparr>store := (store a)\<lparr>invoked := invoked (store a) @ [fst (reads b)]\<rparr>\<rparr>)"
  using assms by (simp add: renderSection_cases readSection_miss_Throws)

lemma capture_isolated:
  fixes a :: "('v, 'e) app"
  assumes "dashOk a" and "A < 3" and "A \<noteq> B"
  shows "boundaries (capture B err a) A = boundaries a A"
    and "store (capture B err a) = store a"
    and "boundaries (renderDashboard (capture B err a)) A = boundaries a A"
    and "store (renderDashboard (capture B err a)) = store a"
proof -
  let ?R = "dashboardReads :: nat \<Rightarrow> key \<times> 'e fetcher"
  let ?c = "capture B err a"
  show b: "boundaries ?c A = boundaries a A" using assms(3) by (simp add: capture_def)
  show s: "store ?c = store a" by (simp add: capture_def)
  have m: "remountOnKey ?c = ?c"
    using assms(1) by (simp add: dashOk_def remountOnKey_def capture_def)
  have sh: "showsEntry ?R ?c A"
    using dashOk_shows [OF assms(1,2)] s b by (rule showsEntry_cong)
  have en: "\<forall>c \<in> set [0, 1, 2]. \<exists>p. cache (store ?c) (fst (?R c)) = Some p"
    using assms(1) by (auto simp: dashOk_def s dest: showsEntry_entry)
  from fold_keeps_boundary [OF sh en, of dashboardProps]
  show "boundaries (renderDashboard ?c) A = boundaries a A"
    and "store (renderDashboard ?c) = store a"
    unfolding renderDashboard_def renderApp_def m using b s by simp_all
qed

lemma retry_isolated:
  fixes a :: "('v, 'e) app"
  assumes "dashOk a"
  shows "outside (the (onReset (dashboardProps B))) (store a)
           (store (dashStep (Retry B) a))"
proof -
  let ?R = "dashboardReads :: nat \<Rightarrow> key \<times> 'e fetcher"
  let ?K = "the (onReset (dashboardProps B))"
  let ?a2 = "remountOnKey (reset dashboardProps B a)"
  from assms have m: "mountedKey a = resetKey a" by (simp add: dashOk_def)
  have s2: "store ?a2 = cacheDelete ?K (store a)"
    by (rule remount_after_reset(2) [OF m])
  have o2: "outside ?K (store a) (store ?a2)"
    unfolding s2 by (rule outside_cacheDelete)
  have "\<forall>c \<in> set [0, 1, 2]. fst (?R c) = ?K
                            \<or> (\<exists>p. cache (store ?a2) (fst (?R c)) = Some p)"
  proof
    fix c :: nat assume "c \<in> set [0, 1, 2]"
    then have "c < 3" by auto
    from showsEntry_entry [OF dashOk_shows [OF assms this]]
    obtain p where "cache (store a) (fst (?R c)) = Some p" by auto
    then show "fst (?R c) = ?K \<or> (\<exists>p. cache (store ?a2) (fst (?R c)) = Some p)"
      unfolding s2 by (simp add: cacheDelete_def)
  qed
  from fold_outside [OF this, of dashboardProps] o2
  show ?thesis
    unfolding dashStep.simps renderDashboard_def renderApp_def
    by (rule outside_trans [rotated])
qed

section \<open>Evaluating concrete histories\<close>

text \<open>
  The definitions to unfold when a concrete history is evaluated.
\<close>

lemmas suspense_eval =
  run_def wrapPromise_def readWrapped_def settlePromise_def runReactions_def
  onFulfilled_def onRejected_def invalidateCache_def invalidateAllCache_def
  emptySuspense_def Let_def

lemmas pcache_eval =
  getCachedPromise_def cachedFetch_def readCached_def use_def settle_def runCatch_def
  cacheDelete_def cacheClear_def emptyCache_def cacheRun_def

lemmas dashboard_eval =
  dashRun_def renderDashboard_def renderApp_def remountOnKey_def renderSection_cases
  readSection_def readCached_def getCachedPromise_def use_def settle_def runCatch_def
  capture_def reset_def handleSectionReset_def handleGlobalReset_def cacheDelete_def
  cacheClear_def dashboardProps_def dashboardReads_def render_def initialState_def
  initialApp_def emptyCache_def getDerivedStateFromError_def Let_def

section \<open>Reads of one key before the operation settles\<close>

text \<open>
  The promise cache of the dashboard deduplicates: the first \<^verbatim>\<open>getCachedPromise\<close> for a key
  stores the promise its producer returns, and any later call for the key, whatever its
  producer, returns that promise and leaves the state, the log of producer calls included,
  as it is (\<open>getCachedPromise_deduplicates\<close> above).

  C1: two reads of one key issued before the operation settles return the identical cache
  entry, and the producer is invoked once. \<^verbatim>\<open>wrapPromise\<close> does not do so. It stores a
  resource in \<^verbatim>\<open>cache\<close> only inside the two \<^verbatim>\<open>then\<close> callbacks, that is at settlement. On
  the empty module, two calls for \<^verbatim>\<open>'stats'\<close> made while nothing has settled give two
  closures over two different resources (0 and 1), \<^verbatim>\<open>cache\<close> has no entry for the key after
  both, and two callbacks wait, one per promise. The branch
  \<^verbatim>\<open>throw cached.promise; // still pending\<close> of the cache hit expects a pending entry in
  the cache; no history reaches it (\<open>wrapPromise_never_cached_pending\<close> above).
\<close>

theorem C1_wrapPromise_pending_not_shared:
  "fst (wrapPromise 0 (Some ''stats'') (emptySuspense :: (nat, string) suspense))
     = Inr (StatusReader 0)
   \<and> fst (wrapPromise 1 (Some ''stats'')
        (snd (wrapPromise 0 (Some ''stats'') (emptySuspense :: (nat, string) suspense))))
     = Inr (StatusReader 1)
   \<and> suspenseCache (run [Wrap 0 (Some ''stats''), Wrap 1 (Some ''stats'')]
        (emptySuspense :: (nat, string) suspense)) ''stats'' = None
   \<and> reactions (run [Wrap 0 (Some ''stats''), Wrap 1 (Some ''stats'')]
        (emptySuspense :: (nat, string) suspense))
     = [(0, 0, Some ''stats''), (1, 1, Some ''stats'')]"
  by (simp add: suspense_eval)

section \<open>Reads after the operation has rejected\<close>

text \<open>
  C2 as the specification states it: after the operation behind a key has rejected with
  \<open>e\<close>, every later read of the key raises \<open>e\<close> and the producer is not called again.
  \<^verbatim>\<open>cachedFetch\<close> registers \<^verbatim>\<open>promise.catch(() => { cache.delete(key) })\<close>: on the empty
  cache, the operation for \<^verbatim>\<open>'task-1'\<close> is promise 0; once it rejects with
  \<open>''unavailable''\<close> the key has no entry, and the next \<^verbatim>\<open>cachedFetch\<close> calls the producer a
  second time and returns the new promise 1.
\<close>

theorem C2_cachedFetch_refetch_counterexample:
  "fst (cachedFetch ''task-1'' Starts (emptyCache :: (nat, string) pcache)) = Inr 0
   \<and> use 0 (settle 0 (PRejected ''unavailable'')
        (snd (cachedFetch ''task-1'' Starts (emptyCache :: (nat, string) pcache))))
       = Inl (ThrownError ''unavailable'')
   \<and> cache (settle 0 (PRejected ''unavailable'')
        (snd (cachedFetch ''task-1'' Starts (emptyCache :: (nat, string) pcache)))) ''task-1''
       = None
   \<and> fst (cachedFetch ''task-1'' Starts (settle 0 (PRejected ''unavailable'')
        (snd (cachedFetch ''task-1'' Starts (emptyCache :: (nat, string) pcache))))) = Inr 1
   \<and> invoked (snd (cachedFetch ''task-1'' Starts (settle 0 (PRejected ''unavailable'')
        (snd (cachedFetch ''task-1'' Starts (emptyCache :: (nat, string) pcache))))))
       = [''task-1'', ''task-1'']"
  by (simp add: pcache_eval)

text \<open>
  C2, amended. (a) The dashboard's cache keeps the rejected promise. Let a history of the
  cache end with a rejected promise (error \<open>e\<close>) under \<open>k\<close>. After any further history of
  reads of any keys with any producers, settlements, and deletions of other keys (no
  \<^verbatim>\<open>cache.delete(k)\<close>, no \<^verbatim>\<open>cache.clear()\<close>), \<^verbatim>\<open>use(getCachedPromise(k, p))\<close> raises \<open>e\<close>
  and leaves the state, the log of producer calls included, as it is.
  (b) \<^verbatim>\<open>wrapPromise\<close> with cache key \<open>k\<close>. Let a history of the module end with a resource
  under \<open>k\<close> whose promise has rejected with \<open>e\<close>, and with no callback of another operation
  for \<open>k\<close> waiting. After any further history without \<^verbatim>\<open>invalidateCache(k)\<close> and
  \<^verbatim>\<open>invalidateAllCache()\<close>, a read of \<open>k\<close> throws \<open>e\<close> and changes nothing; the promise passed
  to the call is not used. While a callback of another operation for \<open>k\<close> is waiting, the
  entry does not stay: when that operation settles, its callback stores its own resource
  under \<open>k\<close>, and reads give what that operation gave (the defect of C1, seen again in C3
  and C9).
  (c) \<^verbatim>\<open>cachedFetch\<close> removes the entry when its operation rejects: the next
  \<^verbatim>\<open>cachedFetch\<close> for the key calls the producer again and returns a new promise.
\<close>

theorem C2_rejected_entry_reads:
  "(cache (cacheRun evs0 emptyCache) k = Some p
      \<and> promises (cacheRun evs0 emptyCache) p = PRejected e
      \<and> (\<forall>ev \<in> set evs1. \<not> removes k ev) \<longrightarrow>
    readCached k f (cacheRun evs1 (cacheRun evs0 emptyCache))
      = (Inl (ThrownError e), cacheRun evs1 (cacheRun evs0 emptyCache)))
 \<and> (suspenseCache (run hs0 emptySuspense) k = Some r
      \<and> promise_sc (resources (run hs0 emptySuspense) r) = Some p'
      \<and> promiseState (run hs0 emptySuspense) p' = PRejected e
      \<and> (\<forall>x \<in> set (reactions (run hs0 emptySuspense)). truthyKey (snd (snd x)) \<noteq> Some k)
      \<and> (\<forall>ev \<in> set hs1. \<not> invalidates k ev) \<longrightarrow>
    readWrapped q (Some k) (run hs1 (run hs0 emptySuspense))
      = (Inl (ThrownError (Some e)), run hs1 (run hs0 emptySuspense)))
 \<and> (cache w k = None \<longrightarrow>
    cache (settle (nextPid w) (PRejected e) (snd (cachedFetch k Starts w))) k = None
    \<and> fst (cachedFetch k Starts
         (settle (nextPid w) (PRejected e) (snd (cachedFetch k Starts w))))
        = Inr (Suc (nextPid w))
    \<and> invoked (snd (cachedFetch k Starts
         (settle (nextPid w) (PRejected e) (snd (cachedFetch k Starts w)))))
        = invoked w @ [k, k])"
proof (intro conjI impI)
  assume a: "cache (cacheRun evs0 emptyCache) k = Some p
      \<and> promises (cacheRun evs0 emptyCache) p = PRejected e
      \<and> (\<forall>ev \<in> set evs1. \<not> removes k ev)"
  then show "readCached k f (cacheRun evs1 (cacheRun evs0 emptyCache))
      = (Inl (ThrownError e), cacheRun evs1 (cacheRun evs0 emptyCache))"
    using getCachedPromise_settled_stays [of evs0 k p "PRejected e" evs1 f] by simp
next
  let ?s = "run hs0 emptySuspense"
  assume a: "suspenseCache ?s k = Some r
      \<and> promise_sc (resources ?s r) = Some p'
      \<and> promiseState ?s p' = PRejected e
      \<and> (\<forall>x \<in> set (reactions ?s). truthyKey (snd (snd x)) \<noteq> Some k)
      \<and> (\<forall>ev \<in> set hs1. \<not> invalidates k ev)"
  then have st: "status_sc (resources ?s r) = Rejected" "error_sc (resources ?s r) = Some e"
    using rejected_error_of_promise [of hs0 k r p' e] by simp_all
  from a have "entryHeld k r (resources ?s r) ?s"
    using entryHeld_reachable [of hs0 k r] by simp
  with a have "entryHeld k r (resources ?s r) (run hs1 ?s)"
    using entryHeld_run by blast
  from entryHeld_read_rejected [OF this st(1), of q] st(2)
  show "readWrapped q (Some k) (run hs1 ?s) = (Inl (ThrownError (Some e)), run hs1 ?s)"
    by simp
qed (simp_all add: cachedFetch_reject_refetch)

theorem C2_rejected_entry_reads_witness:
  "cache (cacheRun [GetCached ''activities'' Starts, Settles 0 (PRejected ''unavailable'')]
      (emptyCache :: (nat, string) pcache)) ''activities'' = Some 0
   \<and> promises (cacheRun [GetCached ''activities'' Starts, Settles 0 (PRejected ''unavailable'')]
      (emptyCache :: (nat, string) pcache)) 0 = PRejected ''unavailable''
   \<and> fst (readCached ''activities'' Starts
       (cacheRun [GetCached ''stats'' Starts, Settles 1 (PFulfilled 7), Deletes ''stats'',
                  GetCached ''activities'' (Throws ''not called'')]
         (cacheRun [GetCached ''activities'' Starts, Settles 0 (PRejected ''unavailable'')]
            (emptyCache :: (nat, string) pcache))))
      = Inl (ThrownError ''unavailable'')
   \<and> suspenseCache (run [Wrap 0 (Some ''activities''), Settle 0 (PRejected ''unavailable'')]
        (emptySuspense :: (nat, string) suspense)) ''activities'' = Some 0
   \<and> promiseState (run [Wrap 0 (Some ''activities''), Settle 0 (PRejected ''unavailable'')]
        (emptySuspense :: (nat, string) suspense)) 0 = PRejected ''unavailable''
   \<and> reactions (run [Wrap 0 (Some ''activities''), Settle 0 (PRejected ''unavailable'')]
        (emptySuspense :: (nat, string) suspense)) = []
   \<and> fst (readWrapped 3 (Some ''activities'')
       (run [Wrap 1 (Some ''activities''), Wrap 2 (Some ''stats''), Settle 2 (PFulfilled 5),
             Invalidate ''stats'']
         (run [Wrap 0 (Some ''activities''), Settle 0 (PRejected ''unavailable'')]
            (emptySuspense :: (nat, string) suspense))))
      = Inl (ThrownError (Some ''unavailable''))"
proof -
  let ?evs0 = "[GetCached ''activities'' Starts, Settles 0 (PRejected ''unavailable'')]
      :: (nat, string) cacheEvent list"
  let ?evs1 = "[GetCached ''stats'' Starts, Settles 1 (PFulfilled 7), Deletes ''stats'',
      GetCached ''activities'' (Throws ''not called'')] :: (nat, string) cacheEvent list"
  let ?hs0 = "[Wrap 0 (Some ''activities''), Settle 0 (PRejected ''unavailable'')]
      :: (nat, string) event list"
  let ?hs1 = "[Wrap 1 (Some ''activities''), Wrap 2 (Some ''stats''), Settle 2 (PFulfilled 5),
      Invalidate ''stats''] :: (nat, string) event list"
  have c1: "cache (cacheRun ?evs0 emptyCache) ''activities'' = Some 0"
    and c2: "promises (cacheRun ?evs0 emptyCache) 0 = PRejected ''unavailable''"
    by (simp_all add: pcache_eval)
  have c3: "\<forall>ev \<in> set ?evs1. \<not> removes ''activities'' ev"
    by simp
  have s1: "suspenseCache (run ?hs0 emptySuspense) ''activities'' = Some 0"
    and s2: "promise_sc (resources (run ?hs0 emptySuspense) 0) = Some 0"
    and s3: "promiseState (run ?hs0 emptySuspense) 0 = PRejected ''unavailable''"
    and s4: "reactions (run ?hs0 emptySuspense) = []"
    by (simp_all add: suspense_eval)
  have s5: "\<forall>ev \<in> set ?hs1. \<not> invalidates ''activities'' ev"
    by simp
  from C2_rejected_entry_reads
         [of ?evs0 "''activities''" 0 "''unavailable''" ?evs1 Starts ?hs0 0 0 ?hs1 3
             "emptyCache :: (nat, string) pcache"]
       c1 c2 c3 s1 s2 s3 s4 s5
  show ?thesis by simp
qed

section \<open>A settlement that arrives after an invalidation\<close>

text \<open>
  C3 as the specification states it: once \<^verbatim>\<open>invalidateCache(k)\<close> has run and a fresh entry
  for \<open>k\<close> exists, a late settlement of the earlier operation is discarded. The callbacks
  of \<^verbatim>\<open>wrapPromise\<close> call \<^verbatim>\<open>cache.set(cacheKey, resource)\<close> without looking at the cache.
  History: read \<^verbatim>\<open>'stats'\<close> with promise 0 (resource 0), invalidate the key, read it again
  with promise 1 (resource 1), promise 1 is fulfilled with 2, so the cache holds the new
  resource 1; then promise 0 is fulfilled with 1. The cache now holds the old resource 0
  under the key and the next read returns the old value 1. Without the second read, the
  late settlement puts the invalidated key back into the cache.
\<close>

theorem C3_stale_settlement_counterexample:
  "suspenseCache
     (run [Wrap 0 (Some ''stats''), Invalidate ''stats'', Wrap 1 (Some ''stats''),
           Settle 1 (PFulfilled 2)] (emptySuspense :: (nat, string) suspense)) ''stats''
     = Some 1
   \<and> suspenseCache
     (run [Wrap 0 (Some ''stats''), Invalidate ''stats'', Wrap 1 (Some ''stats''),
           Settle 1 (PFulfilled 2), Settle 0 (PFulfilled 1)]
        (emptySuspense :: (nat, string) suspense)) ''stats''
     = Some 0
   \<and> fst (readWrapped 2 (Some ''stats'')
       (run [Wrap 0 (Some ''stats''), Invalidate ''stats'', Wrap 1 (Some ''stats''),
             Settle 1 (PFulfilled 2), Settle 0 (PFulfilled 1)]
          (emptySuspense :: (nat, string) suspense)))
     = Inr (Some 1)
   \<and> suspenseCache
     (run [Wrap 0 (Some ''stats''), Invalidate ''stats'', Settle 0 (PFulfilled 1)]
        (emptySuspense :: (nat, string) suspense)) ''stats''
     = Some 0"
  by (simp add: suspense_eval)

text \<open>
  C3, amended: the late settlement is not discarded. When the callbacks registered for
  resource \<open>r\<close> under a non-empty key \<open>k\<close> run, whatever the cache holds, they store \<open>r\<close>
  under \<open>k\<close>; they write no other resource object, so the newly created entry's own
  status, value and error stay as they were, and no other key of the cache changes.
\<close>

theorem C3_settlement_stores_own_resource:
  assumes "promiseState s p \<noteq> PPending" and "k \<noteq> []"
  shows "suspenseCache (runReaction (p, r, Some k) s) k = Some r
       \<and> (\<forall>r'. r' \<noteq> r \<longrightarrow> resources (runReaction (p, r, Some k) s) r' = resources s r')
       \<and> (\<forall>k'. k' \<noteq> k \<longrightarrow>
            suspenseCache (runReaction (p, r, Some k) s) k' = suspenseCache s k')"
  using assms
  by (cases "promiseState s p") (simp_all add: onFulfilled_def onRejected_def Let_def)

theorem C3_settlement_stores_own_resource_witness:
  "promiseState
     ((run [Wrap 0 (Some ''stats''), Invalidate ''stats'', Wrap 1 (Some ''stats''),
            Settle 1 (PFulfilled 2)] (emptySuspense :: (nat, string) suspense))
        \<lparr>promiseState := (\<lambda>_. PPending)(1 := PFulfilled 2, 0 := PFulfilled 1)\<rparr>) 0
     \<noteq> PPending
   \<and> ''stats'' \<noteq> []
   \<and> suspenseCache
       (run [Wrap 0 (Some ''stats''), Invalidate ''stats'', Wrap 1 (Some ''stats''),
             Settle 1 (PFulfilled 2)] (emptySuspense :: (nat, string) suspense)) ''stats''
     = Some 1
   \<and> suspenseCache (runReaction (0, 0, Some ''stats'')
       ((run [Wrap 0 (Some ''stats''), Invalidate ''stats'', Wrap 1 (Some ''stats''),
              Settle 1 (PFulfilled 2)] (emptySuspense :: (nat, string) suspense))
          \<lparr>promiseState := (\<lambda>_. PPending)(1 := PFulfilled 2, 0 := PFulfilled 1)\<rparr>))
       ''stats''
     = Some 0
   \<and> resources (runReaction (0, 0, Some ''stats'')
       ((run [Wrap 0 (Some ''stats''), Invalidate ''stats'', Wrap 1 (Some ''stats''),
              Settle 1 (PFulfilled 2)] (emptySuspense :: (nat, string) suspense))
          \<lparr>promiseState := (\<lambda>_. PPending)(1 := PFulfilled 2, 0 := PFulfilled 1)\<rparr>)) 1
     = \<lparr>status_sc = Fulfilled, value_sc = Some 2, error_sc = None, promise_sc = Some 1\<rparr>"
proof -
  let ?s = "run [Wrap 0 (Some ''stats''), Invalidate ''stats'', Wrap 1 (Some ''stats''),
       Settle 1 (PFulfilled 2)] (emptySuspense :: (nat, string) suspense)"
  let ?s' = "?s\<lparr>promiseState := (\<lambda>_. PPending)(1 := PFulfilled 2, 0 := PFulfilled 1)\<rparr>"
  have h1: "promiseState ?s' 0 \<noteq> PPending"
    by simp
  have h2: "''stats'' \<noteq> []"
    by simp
  have c: "suspenseCache ?s ''stats'' = Some 1"
    by (simp add: suspense_eval)
  have r1: "resources ?s' 1
      = \<lparr>status_sc = Fulfilled, value_sc = Some 2, error_sc = None, promise_sc = Some 1\<rparr>"
    by (simp add: suspense_eval)
  from C3_settlement_stores_own_resource [OF h1 h2, of 0] h1 c r1
  show ?thesis by simp
qed

section \<open>A producer that throws synchronously\<close>

text \<open>
  C4 as the specification states it: for a producer that throws when called, the call of
  \<open>getOrCreate\<close> returns normally and the cache holds a rejected entry for the key.
  On the empty cache, with the producer throwing \<open>''boom''\<close>, \<^verbatim>\<open>getCachedPromise\<close> and
  \<^verbatim>\<open>cachedFetch\<close> hand the thrown value to their caller and store nothing.
\<close>

theorem C4_sync_throw_counterexample:
  "fst (getCachedPromise ''stats'' (Throws ''boom'') (emptyCache :: (nat, string) pcache))
     = Inl ''boom''
   \<and> cache (snd (getCachedPromise ''stats'' (Throws ''boom'')
        (emptyCache :: (nat, string) pcache))) ''stats'' = None
   \<and> fst (cachedFetch ''stats'' (Throws ''boom'') (emptyCache :: (nat, string) pcache))
     = Inl ''boom''
   \<and> cache (snd (cachedFetch ''stats'' (Throws ''boom'')
        (emptyCache :: (nat, string) pcache))) ''stats'' = None"
  by (simp add: getCachedPromise_def cachedFetch_def emptyCache_def)

text \<open>
  C4, amended: when the key has no entry and the producer throws synchronously, both
  caches propagate the thrown value to the caller; the producer has been called once, no
  entry is recorded for any key, and nothing else of the state changes.
\<close>

theorem C4_sync_throw_propagates:
  assumes "cache w k = None"
  shows "getCachedPromise k (Throws e) w = (Inl e, w\<lparr>invoked := invoked w @ [k]\<rparr>)
       \<and> cachedFetch k (Throws e) w = (Inl e, w\<lparr>invoked := invoked w @ [k]\<rparr>)
       \<and> cache (snd (getCachedPromise k (Throws e) w)) = cache w
       \<and> cache (snd (cachedFetch k (Throws e) w)) = cache w"
  using assms by (simp add: getCachedPromise_def cachedFetch_def)

theorem C4_sync_throw_propagates_witness:
  "cache (emptyCache :: (nat, string) pcache) ''tasks'' = None
   \<and> getCachedPromise ''tasks'' (Throws ''down'') (emptyCache :: (nat, string) pcache)
       = (Inl ''down'', emptyCache\<lparr>invoked := [''tasks'']\<rparr>)"
proof -
  have h: "cache (emptyCache :: (nat, string) pcache) ''tasks'' = None"
    by (simp add: emptyCache_def)
  from C4_sync_throw_propagates [OF h, of "''down''"] h show ?thesis
    by (simp add: emptyCache_def)
qed

section \<open>The blocking read\<close>

text \<open>
  C5: the closure \<^verbatim>\<open>wrapPromise\<close> returns for a new resource is a case split on the
  resource's status at the time of the call. Fulfilled: it returns the stored value.
  Rejected: it throws the stored error. Pending: it throws the stored promise. The status
  is one of the three, so the call has no other outcome.
\<close>

theorem C5_reader_three_way:
  "(status_sc (resources s r) = Fulfilled \<longrightarrow>
      callReader (StatusReader r) s = Inr (value_sc (resources s r)))
 \<and> (status_sc (resources s r) = Rejected \<longrightarrow>
      callReader (StatusReader r) s = Inl (ThrownError (error_sc (resources s r))))
 \<and> (status_sc (resources s r) = Pending \<longrightarrow>
      callReader (StatusReader r) s = Inl (ThrownPromise (promise_sc (resources s r))))
 \<and> (status_sc (resources s r) = Fulfilled \<or> status_sc (resources s r) = Rejected
      \<or> status_sc (resources s r) = Pending)"
  by (cases "status_sc (resources s r)") (simp_all add: Let_def)

theorem C5_reader_three_way_witness:
  "status_sc (resources (run [Wrap 0 (Some ''stats'')]
      (emptySuspense :: (nat, string) suspense)) 0) = Pending
   \<and> callReader (StatusReader 0) (run [Wrap 0 (Some ''stats'')]
      (emptySuspense :: (nat, string) suspense)) = Inl (ThrownPromise (Some 0))
   \<and> status_sc (resources (run [Wrap 0 (Some ''stats''), Settle 0 (PFulfilled 48)]
      (emptySuspense :: (nat, string) suspense)) 0) = Fulfilled
   \<and> callReader (StatusReader 0) (run [Wrap 0 (Some ''stats''), Settle 0 (PFulfilled 48)]
      (emptySuspense :: (nat, string) suspense)) = Inr (Some 48)
   \<and> status_sc (resources (run [Wrap 0 (Some ''stats''), Settle 0 (PRejected ''down'')]
      (emptySuspense :: (nat, string) suspense)) 0) = Rejected
   \<and> callReader (StatusReader 0) (run [Wrap 0 (Some ''stats''), Settle 0 (PRejected ''down'')]
      (emptySuspense :: (nat, string) suspense)) = Inl (ThrownError (Some ''down''))"
proof -
  let ?s0 = "run [Wrap 0 (Some ''stats'')] (emptySuspense :: (nat, string) suspense)"
  let ?s1 = "run [Wrap 0 (Some ''stats''), Settle 0 (PFulfilled 48)]
               (emptySuspense :: (nat, string) suspense)"
  let ?s2 = "run [Wrap 0 (Some ''stats''), Settle 0 (PRejected ''down'')]
               (emptySuspense :: (nat, string) suspense)"
  have r0: "resources ?s0 0 = \<lparr>status_sc = Pending, value_sc = None, error_sc = None,
              promise_sc = Some 0\<rparr>"
    by (simp add: suspense_eval)
  have r1: "resources ?s1 0 = \<lparr>status_sc = Fulfilled, value_sc = Some 48, error_sc = None,
              promise_sc = Some 0\<rparr>"
    by (simp add: suspense_eval)
  have r2: "resources ?s2 0 = \<lparr>status_sc = Rejected, value_sc = None,
              error_sc = Some ''down'', promise_sc = Some 0\<rparr>"
    by (simp add: suspense_eval)
  from C5_reader_three_way [of ?s0 0] C5_reader_three_way [of ?s1 0]
       C5_reader_three_way [of ?s2 0] r0 r1 r2
  show ?thesis by simp
qed

section \<open>Reset of a boundary\<close>

text \<open>
  C6: let boundary \<open>b\<close> own key \<open>k\<close>, that is, its \<^verbatim>\<open>onReset\<close> is
  \<^verbatim>\<open>() => handleSectionReset(k)\<close>. After \<^verbatim>\<open>reset()\<close> the cache has no entry for \<open>k\<close>, the
  boundary's state is \<^verbatim>\<open>{ hasError: false, error: null }\<close> and \<^verbatim>\<open>resetKey\<close> has grown by
  one. The next read of \<open>k\<close> calls its producer, whichever it is; with a producer that
  starts an operation the read suspends on a promise allocated by this call, which is
  pending and is the cache's new entry for \<open>k\<close>.
\<close>

theorem C6_reset_then_refetch:
  assumes "onReset (props b) = Some k"
  shows "cache (store (reset props b a)) k = None
       \<and> boundaries (reset props b a) b = \<lparr>hasError = False, error = None\<rparr>
       \<and> resetKey (reset props b a) = resetKey a + 1
       \<and> invoked (store (snd (readSection k f (reset props b a)))) = invoked (store a) @ [k]
       \<and> fst (readSection k Starts (reset props b a))
           = Inl (ThrownPromise (nextPid (store a)))
       \<and> cache (store (snd (readSection k Starts (reset props b a)))) k
           = Some (nextPid (store a))
       \<and> promises (store (snd (readSection k Starts (reset props b a)))) (nextPid (store a))
           = PPending"
proof -
  let ?a' = "reset props b a"
  have miss: "cache (store ?a') k = None"
    using assms by (simp add: reset_owner cacheDelete_def)
  have same: "invoked (store ?a') = invoked (store a)" "nextPid (store ?a') = nextPid (store a)"
    using assms by (simp_all add: reset_owner cacheDelete_def)
  have state: "boundaries ?a' b = \<lparr>hasError = False, error = None\<rparr>"
    "resetKey ?a' = resetKey a + 1"
    using assms by (simp_all add: reset_owner)
  have again: "invoked (store (snd (readSection k f ?a'))) = invoked (store a) @ [k]"
    using readCached_invoked [OF miss, of f] same
    by (simp add: readSection_def case_prod_unfold)
  have fresh: "fst (readSection k Starts ?a') = Inl (ThrownPromise (nextPid (store a)))"
    "cache (store (snd (readSection k Starts ?a'))) k = Some (nextPid (store a))"
    "promises (store (snd (readSection k Starts ?a'))) (nextPid (store a)) = PPending"
    using same by (simp_all add: readSection_def readCached_miss_Starts [OF miss])
  from miss state again fresh show ?thesis by simp
qed

theorem C6_reset_then_refetch_witness:
  "onReset (dashboardProps 1) = Some ''tasks''
   \<and> cache (store (capture 1 (Some ''failed'')
        (initialApp\<lparr>store := settle 0 (PRejected ''failed'')
           (snd (getCachedPromise ''tasks'' Starts (emptyCache :: (nat, string) pcache)))\<rparr>)))
        ''tasks'' = Some 0
   \<and> cache (store (reset dashboardProps 1 (capture 1 (Some ''failed'')
        (initialApp\<lparr>store := settle 0 (PRejected ''failed'')
           (snd (getCachedPromise ''tasks'' Starts (emptyCache :: (nat, string) pcache)))\<rparr>))))
        ''tasks'' = None
   \<and> boundaries (reset dashboardProps 1 (capture 1 (Some ''failed'')
        (initialApp\<lparr>store := settle 0 (PRejected ''failed'')
           (snd (getCachedPromise ''tasks'' Starts (emptyCache :: (nat, string) pcache)))\<rparr>)))
        1 = \<lparr>hasError = False, error = None\<rparr>
   \<and> fst (readSection ''tasks'' Starts (reset dashboardProps 1 (capture 1 (Some ''failed'')
        (initialApp\<lparr>store := settle 0 (PRejected ''failed'')
           (snd (getCachedPromise ''tasks'' Starts (emptyCache :: (nat, string) pcache)))\<rparr>))))
        = Inl (ThrownPromise 1)
   \<and> invoked (store (snd (readSection ''tasks'' Starts
        (reset dashboardProps 1 (capture 1 (Some ''failed'')
        (initialApp\<lparr>store := settle 0 (PRejected ''failed'')
           (snd (getCachedPromise ''tasks'' Starts (emptyCache :: (nat, string) pcache)))\<rparr>))))))
        = [''tasks'', ''tasks'']"
proof -
  let ?a = "capture 1 (Some ''failed'')
        (initialApp\<lparr>store := settle 0 (PRejected ''failed'')
           (snd (getCachedPromise ''tasks'' Starts (emptyCache :: (nat, string) pcache)))\<rparr>)"
  have h: "onReset (dashboardProps 1) = Some ''tasks''"
    by (simp add: dashboardProps_def)
  have before: "cache (store ?a) ''tasks'' = Some 0" "nextPid (store ?a) = 1"
    "invoked (store ?a) = [''tasks'']"
    by (simp_all add: capture_def initialApp_def pcache_eval)
  from C6_reset_then_refetch [of dashboardProps 1 "''tasks''" ?a Starts] h before
  show ?thesis by simp
qed

section \<open>Sibling boundaries of the dashboard\<close>

text \<open>
  Claim C7. The three sections of the dashboard are siblings, each with its own boundary and
  its own key, the key its \<^verbatim>\<open>onReset\<close> deletes. For every history \<open>evs\<close> of the dashboard
  and two different sections \<open>A\<close> and \<open>B\<close>:
  \<^item> a failure captured by \<open>B\<close> writes only the state of \<open>B\<close>: the state of \<open>A\<close> and the
    cache are as before, also after the render that follows;
  \<^item> \<^verbatim>\<open>reset\<close> of \<open>B\<close> deletes the key of \<open>B\<close> and increments \<^verbatim>\<open>resetKey\<close>, so the render
    that follows mounts the dashboard anew: every boundary, that of \<open>A\<close> too, is
    constructed again (fifth conjunct). Section \<open>A\<close> then reads its key again; its entry is
    still in the cache, and after the render the boundary of \<open>A\<close> holds the state it held
    before: failed with the same error if its promise is rejected, not failed otherwise;
  \<^item> every cache entry outside the key of \<open>B\<close> is unchanged, no promise that existed has
    changed its state, and no producer of another section has been called.

  That \<open>A\<close> comes back to its state rests on the entry of \<open>A\<close>: the producers of the
  dashboard are \<^verbatim>\<open>async\<close> functions, so a section that has failed has a rejected promise
  in the cache. A section whose producer throws synchronously has no entry, and a remount
  calls its producer again (lemma \<open>renderSection_throwing_producer\<close>).
\<close>

theorem C7_sibling_isolation:
  fixes evs :: "('v, 'e) dashEvent list" and err :: "'e option"
  assumes "A < 3" and "B < 3" and "A \<noteq> B"
  shows "boundaries (capture B err (dashRun evs)) A = boundaries (dashRun evs) A
       \<and> store (capture B err (dashRun evs)) = store (dashRun evs)
       \<and> boundaries (renderDashboard (capture B err (dashRun evs))) A
           = boundaries (dashRun evs) A
       \<and> store (renderDashboard (capture B err (dashRun evs))) = store (dashRun evs)
       \<and> boundaries (remountOnKey (reset dashboardProps B (dashRun evs))) A = initialState
       \<and> boundaries (dashStep (Retry B) (dashRun evs)) A = boundaries (dashRun evs) A
       \<and> (\<forall>k. onReset (dashboardProps B) \<noteq> Some k \<longrightarrow>
              cache (store (dashStep (Retry B) (dashRun evs))) k
                = cache (store (dashRun evs)) k)
       \<and> (\<forall>p < nextPid (store (dashRun evs)).
              promises (store (dashStep (Retry B) (dashRun evs))) p
                = promises (store (dashRun evs)) p)
       \<and> filter (\<lambda>k. onReset (dashboardProps B) \<noteq> Some k)
                (invoked (store (dashStep (Retry B) (dashRun evs))))
           = filter (\<lambda>k. onReset (dashboardProps B) \<noteq> Some k)
                (invoked (store (dashRun evs)))"
proof -
  let ?a = "dashRun evs"
  let ?K = "the (onReset (dashboardProps B))"
  have ok: "dashOk ?a" by (rule dashOk_run)
  have ok': "dashOk (dashStep (Retry B) ?a)" using ok by (rule dashOk_step)
  have m: "mountedKey ?a = resetKey ?a" using ok by (simp add: dashOk_def)
  have out: "outside ?K (store ?a) (store (dashStep (Retry B) ?a))"
    using ok by (rule retry_isolated)
  have scope: "onReset (dashboardProps B) \<noteq> Some k \<longleftrightarrow> k \<noteq> ?K" for k
    using dashboard_declares [of B] by auto
  have c1: "boundaries (capture B err ?a) A = boundaries ?a A"
    and c2: "store (capture B err ?a) = store ?a"
    and c3: "boundaries (renderDashboard (capture B err ?a)) A = boundaries ?a A"
    and c4: "store (renderDashboard (capture B err ?a)) = store ?a"
    using capture_isolated [OF ok assms(1,3)] by simp_all
  have c5: "boundaries (remountOnKey (reset dashboardProps B ?a)) A = initialState"
    by (rule remount_after_reset(1) [OF m])
  have c6: "boundaries (dashStep (Retry B) ?a) A = boundaries ?a A"
    using dashOk_shows [OF ok assms(1)] dashOk_shows [OF ok' assms(1)] out
      dashboard_other_scope [OF assms]
    by (rule shows_agree)
  have c7: "\<forall>k. onReset (dashboardProps B) \<noteq> Some k \<longrightarrow>
              cache (store (dashStep (Retry B) ?a)) k = cache (store ?a) k"
    using out unfolding scope by (simp add: outside_def)
  have c8: "\<forall>p < nextPid (store ?a).
              promises (store (dashStep (Retry B) ?a)) p = promises (store ?a) p"
    using out by (simp add: outside_def)
  have c9: "filter (\<lambda>k. onReset (dashboardProps B) \<noteq> Some k)
                (invoked (store (dashStep (Retry B) ?a)))
           = filter (\<lambda>k. onReset (dashboardProps B) \<noteq> Some k) (invoked (store ?a))"
    using out unfolding scope by (simp add: outside_def)
  from c1 c2 c3 c4 c5 c6 c7 c8 c9 show ?thesis by blast
qed

text \<open>
  The statistics and the tasks have both failed; the retry of the tasks leaves the
  statistics failed with their error and their entry in place, and calls only the producer
  of the tasks.
\<close>

theorem C7_sibling_isolation_witness:
  "(0::nat) < 3 \<and> (1::nat) < 3 \<and> (0::nat) \<noteq> 1
   \<and> boundaries (dashRun [OperationSettles 0 (PRejected ''stats failed''),
                           OperationSettles 1 (PRejected ''tasks failed'')
                             :: (nat, string) dashEvent]) 0
       = \<lparr>hasError = True, error = Some ''stats failed''\<rparr>
   \<and> boundaries (dashRun [OperationSettles 0 (PRejected ''stats failed''),
                           OperationSettles 1 (PRejected ''tasks failed'')
                             :: (nat, string) dashEvent]) 1
       = \<lparr>hasError = True, error = Some ''tasks failed''\<rparr>
   \<and> boundaries (dashStep (Retry 1)
         (dashRun [OperationSettles 0 (PRejected ''stats failed''),
                   OperationSettles 1 (PRejected ''tasks failed'')
                     :: (nat, string) dashEvent])) 0
       = \<lparr>hasError = True, error = Some ''stats failed''\<rparr>
   \<and> boundaries (dashStep (Retry 1)
         (dashRun [OperationSettles 0 (PRejected ''stats failed''),
                   OperationSettles 1 (PRejected ''tasks failed'')
                     :: (nat, string) dashEvent])) 1
       = initialState
   \<and> cache (store (dashStep (Retry 1)
         (dashRun [OperationSettles 0 (PRejected ''stats failed''),
                   OperationSettles 1 (PRejected ''tasks failed'')
                     :: (nat, string) dashEvent]))) ''stats'' = Some 0
   \<and> cache (store (dashStep (Retry 1)
         (dashRun [OperationSettles 0 (PRejected ''stats failed''),
                   OperationSettles 1 (PRejected ''tasks failed'')
                     :: (nat, string) dashEvent]))) ''tasks'' = Some 3
   \<and> invoked (store (dashStep (Retry 1)
         (dashRun [OperationSettles 0 (PRejected ''stats failed''),
                   OperationSettles 1 (PRejected ''tasks failed'')
                     :: (nat, string) dashEvent])))
       = [''stats'', ''tasks'', ''activities'', ''tasks'']"
  using C7_sibling_isolation
          [where A = 0 and B = 1 and err = "Some ''tasks failed''"
             and evs = "[OperationSettles 0 (PRejected ''stats failed''),
                         OperationSettles 1 (PRejected ''tasks failed'')
                           :: (nat, string) dashEvent]"]
  by (simp add: dashboard_eval)

section \<open>Signals and the boundaries that take them\<close>

text \<open>
  Claim C8. Let \<open>pending\<close> be the not-ready signal of a read (a thrown promise), \<open>failure\<close>
  its failure signal (a thrown error), and \<open>path\<close> any nesting of \<^verbatim>\<open>Suspense\<close> and error
  boundaries above the read, the nearest first. Then:
  \<^item> \<open>pending\<close> leaves the state of every error boundary as it was, whatever the nesting,
    and it ends uncaught or as the placeholder of a \<^verbatim>\<open>Suspense\<close>;
  \<^item> \<open>failure\<close> never ends as the placeholder of a \<^verbatim>\<open>Suspense\<close>, which throws it on
    unchanged;
  \<^item> where a \<^verbatim>\<open>Suspense\<close> and an error boundary wrap the same subtree, in either order
    (the dashboard has the error boundary outside; the \<^verbatim>\<open>use()\<close> sample, with
    \<^verbatim>\<open><Suspense key={key} ...><ErrorBoundary onReset={handleReset}>\<close>, has it inside),
    \<open>pending\<close> gives the placeholder and changes no boundary state, and \<open>failure\<close> gives
    the error fallback and the state \<^verbatim>\<open>getDerivedStateFromError(e)\<close> of that boundary;
  \<^item> \<^verbatim>\<open>TaskContent\<close>, which catches by hand, throws a promise on and takes only an error
    for a failure.
\<close>

theorem C8_signal_routing:
  fixes states :: "nat \<Rightarrow> 'e ErrorBoundaryState"
    and pending :: "('e, pid) thrown + 'v shown"
    and failure :: "('e, pid) thrown + 'v shown"
    and fallbackTask :: "'t"
  assumes "pending = Inl (ThrownPromise p)" and "failure = Inl (ThrownError e)"
  shows "snd (propagate path pending states) = states
   \<and> (fst (propagate path pending states) = pending
        \<or> fst (propagate path pending states) = Inr SuspenseFallback)
   \<and> fst (propagate path failure states) \<noteq> Inr SuspenseFallback
   \<and> Suspense failure = failure
   \<and> propagate [SuspenseBoundary, RecoveryBoundary b] pending states
       = (Inr SuspenseFallback, states)
   \<and> propagate [RecoveryBoundary b, SuspenseBoundary] pending states
       = (Inr SuspenseFallback, states)
   \<and> propagate [SuspenseBoundary, RecoveryBoundary b] failure states
       = (Inr ErrorFallback, states(b := getDerivedStateFromError (Some e)))
   \<and> propagate [RecoveryBoundary b, SuspenseBoundary] failure states
       = (Inr ErrorFallback, states(b := getDerivedStateFromError (Some e)))
   \<and> TaskContent (Inl (ThrownPromise p)) fallbackTask = Inl (ThrownPromise p)
   \<and> TaskContent (Inl (ThrownError e)) fallbackTask = Inr fallbackTask"
proof -
  have "fold throughBoundary path (pending, states) = (pending, states)
      \<or> fold throughBoundary path (pending, states) = (Inr SuspenseFallback, states)"
    unfolding assms by (rule through_pending)
  then have pend: "snd (propagate path pending states) = states"
    "fst (propagate path pending states) = pending
       \<or> fst (propagate path pending states) = Inr SuspenseFallback"
    by (auto simp: propagate_def)
  have "fst (fold throughBoundary path (failure, states)) = failure
      \<or> fst (fold throughBoundary path (failure, states)) = Inr ErrorFallback"
    unfolding assms by (rule through_failure)
  then have fail: "fst (propagate path failure states) \<noteq> Inr SuspenseFallback"
    by (auto simp: propagate_def assms)
  show ?thesis
    using pend fail
    by (simp add: propagate_def Suspense_def catchBoundary_def TaskContent_def assms)
qed

text \<open>
  The nesting of the \<^verbatim>\<open>use()\<close> sample with a pending and with a failed read, and a
  deeper nesting with a pending read.
\<close>

theorem C8_signal_routing_witness:
  "propagate [RecoveryBoundary 0, SuspenseBoundary]
      (Inl (ThrownPromise 7) :: (string, pid) thrown + nat shown) (\<lambda>_. initialState)
     = (Inr SuspenseFallback, \<lambda>_. initialState)
   \<and> propagate [RecoveryBoundary 0, SuspenseBoundary]
      (Inl (ThrownError ''unavailable'') :: (string, pid) thrown + nat shown)
      (\<lambda>_. initialState)
     = (Inr ErrorFallback,
        (\<lambda>_. initialState)(0 := \<lparr>hasError = True, error = Some ''unavailable''\<rparr>))
   \<and> snd (propagate [SuspenseBoundary, RecoveryBoundary 1, SuspenseBoundary, RecoveryBoundary 0]
      (Inl (ThrownPromise 7) :: (string, pid) thrown + nat shown) (\<lambda>_. initialState))
     = (\<lambda>_. initialState)"
proof -
  have h: "(Inl (ThrownPromise 7) :: (string, pid) thrown + nat shown) = Inl (ThrownPromise 7)"
    "(Inl (ThrownError ''unavailable'') :: (string, pid) thrown + nat shown)
       = Inl (ThrownError ''unavailable'')"
    by simp_all
  from C8_signal_routing [OF h, of "[SuspenseBoundary, RecoveryBoundary 1, SuspenseBoundary,
         RecoveryBoundary 0]" "\<lambda>_. initialState" 0 "0 :: nat"]
  show ?thesis
    apply (simp add: getDerivedStateFromError_def)
    apply (elim conjE)
    apply (intro conjI)
    apply assumption+
    done
qed

section \<open>Reads after the operation has been fulfilled\<close>

text \<open>
  The dashboard's cache keeps a fulfilled promise: after any history without
  \<^verbatim>\<open>cache.delete(k)\<close> and \<^verbatim>\<open>cache.clear()\<close>, \<^verbatim>\<open>use(getCachedPromise(k, p))\<close> returns the value
  and calls no producer (\<open>getCachedPromise_settled_stays\<close> above). \<^verbatim>\<open>wrapPromise\<close> keeps
  the value as long as no callback of another operation for the key is waiting
  (\<open>wrapPromise_fulfilled_stays\<close> above).

  C9: once the entry of a key has settled to fulfilled with \<open>v\<close>, every later read without
  invalidation returns \<open>v\<close>. \<^verbatim>\<open>wrapPromise\<close> breaks this where it breaks C1. Two calls for
  \<^verbatim>\<open>'stats'\<close> made before anything has settled leave two resources with one callback each.
  Promise 0 is fulfilled with 48: the cache holds resource 0 and a read returns 48. Promise
  1 is fulfilled with 49: its callback stores resource 1 under the same key, and the next
  read returns 49, with no invalidation in between.
\<close>

theorem C9_wrapPromise_value_replaced:
  "fst (readWrapped 2 (Some ''stats'')
     (run [Wrap 0 (Some ''stats''), Wrap 1 (Some ''stats''), Settle 0 (PFulfilled 48)]
        (emptySuspense :: (nat, string) suspense)))
     = Inr (Some 48)
   \<and> fst (readWrapped 2 (Some ''stats'')
     (run [Wrap 0 (Some ''stats''), Wrap 1 (Some ''stats''), Settle 0 (PFulfilled 48),
           Settle 1 (PFulfilled 49)] (emptySuspense :: (nat, string) suspense)))
     = Inr (Some 49)"
  by (simp add: suspense_eval)

section \<open>A captured value that is not an error object\<close>

text \<open>
  C10: when a boundary captures \<^verbatim>\<open>null\<close> (or \<^verbatim>\<open>undefined\<close>), its state has
  \<^verbatim>\<open>hasError\<close> set and no error, and \<^verbatim>\<open>render\<close> returns the children. Both boundaries, the
  dashboard's and the one of the \<^verbatim>\<open>use()\<close> sample, show a fallback only when \<^verbatim>\<open>hasError\<close>
  is set and the stored error is not null.
\<close>

theorem C10_falsy_error_renders_children:
  "getDerivedStateFromError None = \<lparr>hasError = True, error = (None :: 'e option)\<rparr>
   \<and> render props (getDerivedStateFromError (None :: 'e option)) = Children
   \<and> renderClass (getDerivedStateFromError (None :: 'e option)) = Children
   \<and> (render props (st :: 'e ErrorBoundaryState) \<noteq> Children \<longrightarrow>
        hasError st \<and> error st \<noteq> None)
   \<and> (renderClass st \<noteq> Children \<longrightarrow> hasError st \<and> error st \<noteq> None)"
  by (cases "hasError st"; cases "error st")
     (simp_all add: getDerivedStateFromError_def render_def renderClass_def)

theorem C10_falsy_error_renders_children_witness:
  "render (dashboardProps 1) (getDerivedStateFromError (Some ''boom'')) = Fallback ''boom''
   \<and> renderClass (getDerivedStateFromError (Some ''boom'')) = Fallback ''boom''
   \<and> hasError (getDerivedStateFromError (Some ''boom''))
   \<and> error (getDerivedStateFromError (Some ''boom'')) = Some ''boom''
   \<and> hasError (getDerivedStateFromError (None :: string option))
   \<and> render (dashboardProps 1) (getDerivedStateFromError (None :: string option)) = Children"
proof -
  have shown: "render (dashboardProps 1) (getDerivedStateFromError (Some ''boom''))
      = Fallback ''boom''"
    "renderClass (getDerivedStateFromError (Some ''boom'')) = Fallback ''boom''"
    by (simp_all add: render_def renderClass_def getDerivedStateFromError_def
          dashboardProps_def)
  from C10_falsy_error_renders_children
         [of "dashboardProps 1" "getDerivedStateFromError (Some ''boom'')"] shown
  show ?thesis by (simp add: getDerivedStateFromError_def)
qed

end
